theory Spec2Isabelle
  imports Main "HOL-Library.Sublist"
begin

section \<open>Data model\<close>

text \<open>
  The module \<^verbatim>\<open>src/app/utils/asset.js\<close> works on plain JavaScript objects. An asset is an
  object with the optional fields \<^verbatim>\<open>uri\<close>, \<^verbatim>\<open>type\<close>, \<^verbatim>\<open>name\<close>, \<^verbatim>\<open>attributes\<close>,
  \<^verbatim>\<open>metadata\<close>, \<^verbatim>\<open>notes\<close> and \<^verbatim>\<open>children\<close>. A field that is missing, \<^verbatim>\<open>undefined\<close> or
  \<^verbatim>\<open>null\<close> is \<open>None\<close>; the code never tells these three apart on the fields modelled as
  options. A \<^verbatim>\<open>children\<close> array holds asset objects; the asset handed to a function may itself
  be absent, so the functions take an \<open>asset option\<close>.
\<close>

datatype error = TypeError | RangeError

text \<open>
  Modelled from the spec: \<^verbatim>\<open>Constants.AssetType\<close> lives in \<^verbatim>\<open>app/constants/constants\<close>, which
  is not part of the sources at hand. The spec lists the kinds FILE, DIRECTORY, FOLDER and URL;
  any other value of the \<^verbatim>\<open>type\<close> field is \<open>OtherType\<close>.
\<close>

datatype asset_type = FILE | DIRECTORY | FOLDER | URL | OtherType string

text \<open>The JavaScript values a flag such as \<^verbatim>\<open>include\<close> can hold, and their truthiness.\<close>

datatype jsval = JUndefined | JNull | JBool bool | JNum int | JStr string

fun truthy :: "jsval \<Rightarrow> bool" where
  "truthy JUndefined = False"
| "truthy JNull = False"
| "truthy (JBool b) = b"
| "truthy (JNum n) = (n \<noteq> 0)"
| "truthy (JStr s) = (s \<noteq> [])"

text \<open>A string that may be \<^verbatim>\<open>null\<close> or \<^verbatim>\<open>undefined\<close>: falsy when absent or empty.\<close>

fun truthy_str :: "string option \<Rightarrow> bool" where
  "truthy_str None = False"
| "truthy_str (Some s) = (s \<noteq> [])"

record metadata_entry =
  m_id :: jsval
  m_include :: jsval

record note_rec =
  note_fields :: "(string \<times> string) list"
  note_uri :: "string option"

datatype asset = Asset
  (uri: "string option")
  (atype: "asset_type option")
  (name: "string option")
  (attributes: "(string \<times> bool) list option")
  (metadata: "metadata_entry option list option")
  (asset_notes: "note_rec list option")
  (children: "asset list option")

datatype uri_or_asset = UriString string | AssetObject asset

section \<open>JavaScript string and array primitives\<close>

text \<open>
  A string is the list of the bytes of its UTF-8 encoding. The separators, the dot and the
  ASCII white space are single bytes that occur in no longer encoding, so splitting and
  searching for them work on the bytes as they do on the characters.
\<close>

definition slash :: char where
  "slash = CHR ''/''"

definition backslash :: char where
  "backslash = CHR 0x5C"

definition dot :: char where
  "dot = CHR ''.''"

text \<open>
  \<^verbatim>\<open>String.prototype.split\<close> with a separator that matches one character: the pieces between
  the separators, always at least one piece.
\<close>

fun split_by :: "(char \<Rightarrow> bool) \<Rightarrow> string \<Rightarrow> string list" where
  "split_by P [] = [[]]"
| "split_by P (c # cs) =
     (if P c then [] # split_by P cs
      else (case split_by P cs of [] \<Rightarrow> [[c]] | s # ss \<Rightarrow> (c # s) # ss))"

text \<open>\<^verbatim>\<open>Array.prototype.join\<close> of strings.\<close>

fun join_with :: "string \<Rightarrow> string list \<Rightarrow> string" where
  "join_with sep [] = []"
| "join_with sep [s] = s"
| "join_with sep (s # t # ss) = s @ sep @ join_with sep (t # ss)"

text \<open>\<^verbatim>\<open>indexOf\<close> and \<^verbatim>\<open>lastIndexOf\<close> of a one-character string: the index, or -1.\<close>

definition indexOf :: "string \<Rightarrow> char \<Rightarrow> int" where
  "indexOf s c = (if c \<in> set s then int (length (takeWhile (\<lambda>x. x \<noteq> c) s)) else -1)"

definition lastIndexOf :: "string \<Rightarrow> char \<Rightarrow> int" where
  "lastIndexOf s c =
     (if c \<in> set s then int (length s) - 1 - int (length (takeWhile (\<lambda>x. x \<noteq> c) (rev s)))
      else -1)"

text \<open>\<^verbatim>\<open>s.substring(0, e)\<close>: a negative end counts as 0, an end past the string as its length.\<close>

definition substring0 :: "string \<Rightarrow> int \<Rightarrow> string" where
  "substring0 s e = take (nat e) s"

text \<open>\<^verbatim>\<open>s.slice(b)\<close> for \<open>b \<ge> 0\<close>.\<close>

definition slice_from :: "string \<Rightarrow> int \<Rightarrow> string" where
  "slice_from s b = drop (nat b) s"

section \<open>Naming utilities\<close>

text \<open>
  \<^verbatim>\<open>getExtensionFromUri\<close>: the argument is a string or an object with a \<^verbatim>\<open>uri\<close> field.
  \<^verbatim>\<open>uri.split(/[\\/]/).pop()\<close> is the last piece of the split.
\<close>

definition extension_of_uri :: "string \<Rightarrow> string" where
  "extension_of_uri u =
     (let basename = last (split_by (\<lambda>c. c = backslash \<or> c = slash) u);
          pos = lastIndexOf basename dot
      in if basename = [] \<or> pos < 1 then [] else slice_from basename (pos + 1))"

fun getExtensionFromUri :: "uri_or_asset option \<Rightarrow> string" where
  "getExtensionFromUri None = []"
| "getExtensionFromUri (Some (UriString s)) = (if s = [] then [] else extension_of_uri s)"
| "getExtensionFromUri (Some (AssetObject a)) =
     extension_of_uri (if truthy_str (uri a) then (case uri a of Some u \<Rightarrow> u | None \<Rightarrow> []) else [])"

text \<open>
  The spec's words for the same function: the final path segment is what follows the last
  forward or back slash, and the extension is what follows the last dot of that segment.
\<close>

definition final_segment_spec :: "string \<Rightarrow> string" where
  "final_segment_spec u = rev (takeWhile (\<lambda>c. c \<noteq> slash \<and> c \<noteq> backslash) (rev u))"

definition after_last_dot_spec :: "string \<Rightarrow> string" where
  "after_last_dot_spec seg = rev (takeWhile (\<lambda>c. c \<noteq> dot) (rev seg))"

definition extension_spec :: "string \<Rightarrow> string" where
  "extension_spec u =
     (let seg = final_segment_spec u
      in if seg = [] \<or> dot \<notin> set seg \<or> (hd seg = dot \<and> dot \<notin> set (tl seg)) then []
         else after_last_dot_spec seg)"

section \<open>Handler metadata accessor and inclusion filter\<close>

text \<open>
  \<^verbatim>\<open>String.prototype.trim\<close> removes white space and line terminators at both ends: TAB, LF,
  VT, FF, CR and SPACE, and beyond ASCII U+00A0, U+1680, U+2000 to U+200A, U+2028, U+2029,
  U+202F, U+205F, U+3000 and U+FEFF. Characters are bytes here and a string holds the UTF-8
  encoding of the text, so a character beyond ASCII is the two or three bytes of its encoding.
  \<open>trimEnd_rev\<close> works on the reversed string, the last byte first.
\<close>

definition is_space1 :: "char \<Rightarrow> bool" where
  "is_space1 c = (c = CHR 0x09 \<or> c = CHR 0x0A \<or> c = CHR 0x0B \<or> c = CHR 0x0C
                  \<or> c = CHR 0x0D \<or> c = CHR 0x20)"

definition is_space2 :: "char \<Rightarrow> char \<Rightarrow> bool" where
  "is_space2 a b = (a = CHR 0xC2 \<and> b = CHR 0xA0)"

definition is_space3 :: "char \<Rightarrow> char \<Rightarrow> char \<Rightarrow> bool" where
  "is_space3 a b c =
     ((a = CHR 0xE1 \<and> b = CHR 0x9A \<and> c = CHR 0x80)
      \<or> (a = CHR 0xE2 \<and> b = CHR 0x80
          \<and> c \<in> set [CHR 0x80, CHR 0x81, CHR 0x82, CHR 0x83, CHR 0x84, CHR 0x85, CHR 0x86,
                       CHR 0x87, CHR 0x88, CHR 0x89, CHR 0x8A, CHR 0xA8, CHR 0xA9, CHR 0xAF])
      \<or> (a = CHR 0xE2 \<and> b = CHR 0x81 \<and> c = CHR 0x9F)
      \<or> (a = CHR 0xE3 \<and> b = CHR 0x80 \<and> c = CHR 0x80)
      \<or> (a = CHR 0xEF \<and> b = CHR 0xBB \<and> c = CHR 0xBF))"

fun trimStart :: "string \<Rightarrow> string" where
  "trimStart (a # b # c # s) =
     (if is_space1 a then trimStart (b # c # s)
      else if is_space2 a b then trimStart (c # s)
      else if is_space3 a b c then trimStart s
      else a # b # c # s)"
| "trimStart [a, b] =
     (if is_space1 a then trimStart [b] else if is_space2 a b then [] else [a, b])"
| "trimStart [a] = (if is_space1 a then [] else [a])"
| "trimStart [] = []"

fun trimEnd_rev :: "string \<Rightarrow> string" where
  "trimEnd_rev (c # b # a # s) =
     (if is_space1 c then trimEnd_rev (b # a # s)
      else if is_space2 b c then trimEnd_rev (a # s)
      else if is_space3 a b c then trimEnd_rev s
      else c # b # a # s)"
| "trimEnd_rev [b, a] =
     (if is_space1 b then trimEnd_rev [a] else if is_space2 a b then [] else [b, a])"
| "trimEnd_rev [a] = (if is_space1 a then [] else [a])"
| "trimEnd_rev [] = []"

definition js_trim :: "string \<Rightarrow> string" where
  "js_trim s = rev (trimEnd_rev (rev (trimStart s)))"

text \<open>The callback of \<^verbatim>\<open>metadata.find\<close>: \<^verbatim>\<open>m && m.id === handler\<close>.\<close>

fun is_handler_entry :: "string \<Rightarrow> metadata_entry option \<Rightarrow> bool" where
  "is_handler_entry h None = False"
| "is_handler_entry h (Some e) = (m_id e = JStr h)"

fun getHandlerMetadata ::
  "string option \<Rightarrow> metadata_entry option list option \<Rightarrow> metadata_entry option" where
  "getHandlerMetadata handler None = None"
| "getHandlerMetadata None (Some ms) = None"
| "getHandlerMetadata (Some h) (Some ms) =
     (if ms = [] then None
      else if h = [] \<or> js_trim h = [] then None
      else (case find (is_handler_entry h) ms of
              None \<Rightarrow> None
            | Some entry \<Rightarrow> entry))"

text \<open>\<^verbatim>\<open>array.filter((c) => c)\<close> on an array of objects and nulls.\<close>

fun filter_truthy :: "'a option list \<Rightarrow> 'a list" where
  "filter_truthy [] = []"
| "filter_truthy (None # xs) = filter_truthy xs"
| "filter_truthy (Some x # xs) = x # filter_truthy xs"

text \<open>
  \<^verbatim>\<open>filterIncludedFileAssets\<close>. \<^verbatim>\<open>FileHandler.id\<close> comes from
  \<^verbatim>\<open>app/services/assets/handlers/file\<close>, which is not part of the sources at hand: it is the
  parameter \<open>fid\<close>. The \<^verbatim>\<open>for\<close> loop that replaces each child by its filtered version is
  \<open>filterIncludedFileAssets_loop\<close>.
\<close>

fun filterIncludedFileAssets :: "string option \<Rightarrow> asset option \<Rightarrow> asset option"
and filterIncludedFileAssets_loop :: "string option \<Rightarrow> asset list \<Rightarrow> asset option list" where
  "filterIncludedFileAssets fid None = None"
| "filterIncludedFileAssets fid (Some (Asset u t n at m ns cs)) =
     (if (case getHandlerMetadata fid m of
            None \<Rightarrow> False
          | Some assetMetadata \<Rightarrow> \<not> truthy (m_include assetMetadata))
      then None
      else (case cs of
              None \<Rightarrow> Some (Asset u t n at m ns cs)
            | Some l \<Rightarrow>
                Some (Asset u t n at m ns
                  (Some (filter_truthy (filterIncludedFileAssets_loop fid l))))))"
| "filterIncludedFileAssets_loop fid [] = []"
| "filterIncludedFileAssets_loop fid (c # l) =
     filterIncludedFileAssets fid (Some c) # filterIncludedFileAssets_loop fid l"

section \<open>Tree search\<close>

text \<open>
  \<^verbatim>\<open>findDescendantAssetByUri\<close>: \<^verbatim>\<open>asset.uri === uri\<close> holds for a truthy \<^verbatim>\<open>uri\<close> exactly
  when the field is that string. The \<^verbatim>\<open>for\<close> loop with its early return is
  \<open>findDescendantAssetByUri_loop\<close>.
\<close>

fun findDescendantAssetByUri :: "asset option \<Rightarrow> string option \<Rightarrow> asset option"
and findDescendantAssetByUri_loop :: "asset list \<Rightarrow> string option \<Rightarrow> asset option" where
  "findDescendantAssetByUri None target = None"
| "findDescendantAssetByUri (Some (Asset u t n at m ns cs)) target =
     (if \<not> truthy_str target then None
      else if u = target then Some (Asset u t n at m ns cs)
      else (case cs of
              None \<Rightarrow> None
            | Some l \<Rightarrow> findDescendantAssetByUri_loop l target))"
| "findDescendantAssetByUri_loop [] target = None"
| "findDescendantAssetByUri_loop (c # l) target =
     (case findDescendantAssetByUri (Some c) target of
        Some found \<Rightarrow> Some found
      | None \<Rightarrow> findDescendantAssetByUri_loop l target)"

text \<open>The nodes of a tree in depth-first pre-order: a node, then its children's subtrees in order.\<close>

fun preorder :: "asset \<Rightarrow> asset list"
and preorder_list :: "asset list \<Rightarrow> asset list" where
  "preorder (Asset u t n at m ns cs) =
     Asset u t n at m ns cs # (case cs of None \<Rightarrow> [] | Some l \<Rightarrow> preorder_list l)"
| "preorder_list [] = []"
| "preorder_list (c # l) = preorder c @ preorder_list l"

text \<open>
  \<^verbatim>\<open>findAllDescendantAssetsByUri\<close>. \<^verbatim>\<open>path.sep\<close> is the separator of the platform; the POSIX
  flavour of Node's \<^verbatim>\<open>path\<close> module is modelled throughout, where it is the forward slash.
  \<^verbatim>\<open>indexOf_str\<close> is \<^verbatim>\<open>String.prototype.indexOf\<close> with a string argument.
\<close>

definition path_sep :: char where
  "path_sep = slash"

fun indexOf_str :: "string \<Rightarrow> string \<Rightarrow> int" where
  "indexOf_str [] pat = (if pat = [] then 0 else -1)"
| "indexOf_str (c # s) pat =
     (if prefix pat (c # s) then 0
      else (let r = indexOf_str s pat in if r < 0 then -1 else r + 1))"

definition includes_str :: "string \<Rightarrow> string \<Rightarrow> bool" where
  "includes_str s pat = (indexOf_str s pat \<noteq> -1)"

function findAllDescendantAssetsByUri_loop :: "string \<Rightarrow> string \<Rightarrow> string list \<Rightarrow> string list" where
  "findAllDescendantAssetsByUri_loop assetUri rootUri descendantsList =
     (if assetUri \<noteq> rootUri then
        (let lastSep = lastIndexOf assetUri path_sep
         in if lastSep = -1 then descendantsList
            else (let assetUri' = substring0 assetUri lastSep
                  in findAllDescendantAssetsByUri_loop assetUri' rootUri
                       (if assetUri' \<noteq> substring0 rootUri (indexOf rootUri path_sep)
                        then descendantsList @ [assetUri'] else descendantsList)))
      else descendantsList)"
  by pat_completeness auto
termination
proof (relation "measure (\<lambda>(assetUri, rootUri, descendantsList). length assetUri)")
  show "wf (measure (\<lambda>(assetUri, rootUri, descendantsList). length assetUri))"
    by simp
next
  fix assetUri rootUri :: string and descendantsList :: "string list" and lastSep assetUri'
  assume "lastSep = lastIndexOf assetUri path_sep" and "lastSep \<noteq> -1"
    and a': "assetUri' = substring0 assetUri lastSep"
  then have "path_sep \<in> set assetUri" and "lastSep < int (length assetUri)"
    by (auto simp: lastIndexOf_def split: if_splits)
  then have "length assetUri' < length assetUri"
    by (cases assetUri) (auto simp: a' substring0_def)
  then show "((assetUri', rootUri,
               if assetUri' \<noteq> substring0 rootUri (indexOf rootUri path_sep)
               then descendantsList @ [assetUri'] else descendantsList),
              assetUri, rootUri, descendantsList)
             \<in> measure (\<lambda>(assetUri, rootUri, descendantsList). length assetUri)"
    by simp
qed

declare findAllDescendantAssetsByUri_loop.simps [simp del]

definition findAllDescendantAssetsByUri :: "string option \<Rightarrow> string option \<Rightarrow> string list" where
  "findAllDescendantAssetsByUri assetUri rootUri =
     (case (assetUri, rootUri) of
        (Some a, Some r) \<Rightarrow>
          (if a \<noteq> [] \<and> r \<noteq> [] \<and> includes_str a r \<and> indexOf_str a r = 0
           then findAllDescendantAssetsByUri_loop a r []
           else [])
      | _ \<Rightarrow> [])"

text \<open>
  A URI that lies below a root at path-segment boundaries: the root followed by a separator and
  a segment, for each segment in turn.
\<close>

definition uri_under :: "string \<Rightarrow> string list \<Rightarrow> string" where
  "uri_under r segs = r @ concat (map (\<lambda>s. path_sep # s) segs)"

section \<open>Note aggregator\<close>

text \<open>
  \<^verbatim>\<open>getAllNotes\<close> builds an array that holds the node's own notes (objects) and, pushed after
  them, one array per child; \<^verbatim>\<open>flat()\<close> then flattens one level. An element of that array is
  \<open>Inl\<close> for a note and \<open>Inr\<close> for an array of notes.
\<close>

definition flat :: "('a + 'a list) list \<Rightarrow> 'a list" where
  "flat xs = concat (map (case_sum (\<lambda>x. [x]) (\<lambda>l. l)) xs)"

text \<open>\<^verbatim>\<open>{ ...n, uri: asset.uri }\<close>: a copy of the note with its \<^verbatim>\<open>uri\<close> set.\<close>

definition tag_note :: "string option \<Rightarrow> note_rec \<Rightarrow> note_rec" where
  "tag_note u n = n\<lparr>note_uri := u\<rparr>"

fun getAllNotes :: "asset option \<Rightarrow> note_rec list"
and getAllNotes_loop ::
  "asset list \<Rightarrow> (note_rec + note_rec list) list \<Rightarrow> (note_rec + note_rec list) list" where
  "getAllNotes None = flat []"
| "getAllNotes (Some (Asset u t n at m ns cs)) =
     (let notes = (case ns of None \<Rightarrow> [] | Some l \<Rightarrow> map (\<lambda>x. Inl (tag_note u x)) l)
      in case cs of
           None \<Rightarrow> flat notes
         | Some l \<Rightarrow> flat (getAllNotes_loop l notes))"
| "getAllNotes_loop [] notes = notes"
| "getAllNotes_loop (c # l) notes = getAllNotes_loop l (notes @ [Inr (getAllNotes (Some c))])"

text \<open>The spec's words: the notes a node owns, each tagged with the node's uri.\<close>

definition own_notes_spec :: "asset \<Rightarrow> note_rec list" where
  "own_notes_spec a =
     (case asset_notes a of None \<Rightarrow> [] | Some l \<Rightarrow> map (\<lambda>n. n\<lparr>note_uri := uri a\<rparr>) l)"

section \<open>Node's path module, POSIX flavour\<close>

text \<open>
  \<^verbatim>\<open>require('path')\<close> is the Node.js library, not code of this repository. Its POSIX
  implementation is modelled from its documented behaviour, at the level of path segments:
  \<^verbatim>\<open>normalizeString\<close> walks the segments between slashes, skips empty and \<^verbatim>\<open>.\<close> segments and
  lets \<^verbatim>\<open>..\<close> remove the segment before it. Every function of the module first checks that its
  arguments are strings and throws a \<^verbatim>\<open>TypeError\<close> otherwise. \<^verbatim>\<open>process.cwd()\<close> is the
  parameter \<open>cwd\<close>.
\<close>

definition posix_sep :: char where
  "posix_sep = slash"

definition validateString :: "string option \<Rightarrow> error + string" where
  "validateString v = (case v of None \<Rightarrow> Inl TypeError | Some s \<Rightarrow> Inr s)"

definition starts_with_slash :: "string \<Rightarrow> bool" where
  "starts_with_slash p = (case p of [] \<Rightarrow> False | c # cs \<Rightarrow> c = slash)"

definition path_isAbsolute :: "string option \<Rightarrow> error + bool" where
  "path_isAbsolute p =
     (case validateString p of Inl e \<Rightarrow> Inl e | Inr s \<Rightarrow> Inr (starts_with_slash s))"

text \<open>
  One segment of \<^verbatim>\<open>normalizeString\<close>; \<open>res\<close> holds the segments kept so far, the last one
  first.
\<close>

definition normalize_step :: "bool \<Rightarrow> string list \<Rightarrow> string \<Rightarrow> string list" where
  "normalize_step allowAboveRoot res seg =
     (if seg = [] \<or> seg = ''.'' then res
      else if seg = ''..'' then
        (case res of
           [] \<Rightarrow> if allowAboveRoot then [''..''] else []
         | lastSeg # rest \<Rightarrow>
             if lastSeg = ''..'' then (if allowAboveRoot then ''..'' # res else res) else rest)
      else seg # res)"

definition normalizeString :: "bool \<Rightarrow> string \<Rightarrow> string" where
  "normalizeString allowAboveRoot p =
     join_with [slash]
       (rev (foldl (normalize_step allowAboveRoot) [] (split_by (\<lambda>c. c = slash) p)))"

text \<open>
  The loop of \<^verbatim>\<open>path.resolve\<close> runs over the arguments from the last to the first and then
  over the working directory, until the path built so far is absolute. Each argument it reaches
  is validated; empty ones are skipped.
\<close>

fun resolve_loop :: "string option list \<Rightarrow> string \<Rightarrow> error + (string \<times> bool)" where
  "resolve_loop [] resolvedPath = Inr (resolvedPath, False)"
| "resolve_loop (a # rest) resolvedPath =
     (case validateString a of
        Inl e \<Rightarrow> Inl e
      | Inr p \<Rightarrow>
          if p = [] then resolve_loop rest resolvedPath
          else if starts_with_slash p then Inr (p @ [slash] @ resolvedPath, True)
          else resolve_loop rest (p @ [slash] @ resolvedPath))"

definition path_resolve :: "string \<Rightarrow> string option list \<Rightarrow> error + string" where
  "path_resolve cwd args =
     (case resolve_loop (rev args @ [Some cwd]) [] of
        Inl e \<Rightarrow> Inl e
      | Inr (resolvedPath, resolvedAbsolute) \<Rightarrow>
          (let n = normalizeString (\<not> resolvedAbsolute) resolvedPath
           in Inr (if resolvedAbsolute then slash # n else if n \<noteq> [] then n else ''.'')))"

text \<open>The segments of a resolved path.\<close>

definition path_segments :: "string \<Rightarrow> string list" where
  "path_segments p = filter (\<lambda>s. s \<noteq> []) (split_by (\<lambda>c. c = slash) p)"

text \<open>
  \<^verbatim>\<open>path.relative\<close>: both paths are resolved; the result climbs with \<^verbatim>\<open>..\<close> out of the
  segments of \<^verbatim>\<open>from\<close> that are not shared and then descends along the rest of \<^verbatim>\<open>to\<close>.
\<close>

definition path_relative :: "string \<Rightarrow> string option \<Rightarrow> string option \<Rightarrow> error + string" where
  "path_relative cwd fromPath toPath =
     (case validateString fromPath of
        Inl e \<Rightarrow> Inl e
      | Inr f \<Rightarrow>
     (case validateString toPath of
        Inl e \<Rightarrow> Inl e
      | Inr t \<Rightarrow>
          if f = t then Inr []
          else (case path_resolve cwd [Some f] of
                  Inl e \<Rightarrow> Inl e
                | Inr f' \<Rightarrow>
               (case path_resolve cwd [Some t] of
                  Inl e \<Rightarrow> Inl e
                | Inr t' \<Rightarrow>
                    if f' = t' then Inr []
                    else (let fs = path_segments f';
                              ts = path_segments t';
                              c = length (longest_common_prefix fs ts)
                          in Inr (join_with [slash]
                                    (replicate (length fs - c) ''..'' @ drop c ts)))))))"

section \<open>Path normalizer and tree path converter\<close>

fun shouldConvertPath :: "asset option \<Rightarrow> bool" where
  "shouldConvertPath None = False"
| "shouldConvertPath (Some a) =
     (atype a = Some FILE \<or> atype a = Some DIRECTORY \<or> atype a = Some FOLDER)"

fun relativeToAbsolutePath :: "string \<Rightarrow> string option \<Rightarrow> asset option \<Rightarrow> error + string option" where
  "relativeToAbsolutePath cwd projectPath None = Inr None"
| "relativeToAbsolutePath cwd projectPath (Some a) =
     (case uri a of
        None \<Rightarrow> Inr None
      | Some u \<Rightarrow>
          (case path_resolve cwd [projectPath, Some u] of
             Inl e \<Rightarrow> Inl e
           | Inr p \<Rightarrow> Inr (Some p)))"

fun absoluteToRelativePath :: "string \<Rightarrow> string option \<Rightarrow> asset option \<Rightarrow> error + string option" where
  "absoluteToRelativePath cwd projectPath None = Inr None"
| "absoluteToRelativePath cwd projectPath (Some a) =
     (case uri a of
        None \<Rightarrow> Inr None
      | Some u \<Rightarrow>
          (case path_isAbsolute (Some u) of
             Inl e \<Rightarrow> Inl e
           | Inr isAbs \<Rightarrow>
               if \<not> isAbs then Inr None
               else (case path_relative cwd projectPath (Some u) of
                       Inl e \<Rightarrow> Inl e
                     | Inr relativePath \<Rightarrow>
                         Inr (Some (join_with [posix_sep]
                                      (split_by (\<lambda>c. c = path_sep) relativePath))))))"

text \<open>
  \<^verbatim>\<open>_recursivePathConversion\<close> on the value of the tree: the node's \<^verbatim>\<open>uri\<close> is replaced by
  the worker's result when \<^verbatim>\<open>shouldConvertPath\<close> holds, then each child is replaced by its
  conversion, in order. An exception thrown by the worker ends the call.
\<close>

type_synonym worker = "string option \<Rightarrow> asset option \<Rightarrow> error + string option"

fun recursivePathConversion_rec :: "worker \<Rightarrow> string option \<Rightarrow> asset \<Rightarrow> error + asset"
and recursivePathConversion_loop :: "worker \<Rightarrow> string option \<Rightarrow> asset list \<Rightarrow> error + asset list" where
  "recursivePathConversion_rec workerFn projectPath (Asset u t n at m ns cs) =
     (case (if shouldConvertPath (Some (Asset u t n at m ns cs))
            then workerFn projectPath (Some (Asset u t n at m ns cs)) else Inr u) of
        Inl e \<Rightarrow> Inl e
      | Inr u' \<Rightarrow>
          (case cs of
             None \<Rightarrow> Inr (Asset u' t n at m ns None)
           | Some l \<Rightarrow>
               (case recursivePathConversion_loop workerFn projectPath l of
                  Inl e \<Rightarrow> Inl e
                | Inr l' \<Rightarrow> Inr (Asset u' t n at m ns (Some l')))))"
| "recursivePathConversion_loop workerFn projectPath [] = Inr []"
| "recursivePathConversion_loop workerFn projectPath (c # l) =
     (case recursivePathConversion_rec workerFn projectPath c of
        Inl e \<Rightarrow> Inl e
      | Inr c' \<Rightarrow>
          (case recursivePathConversion_loop workerFn projectPath l of
             Inl e \<Rightarrow> Inl e
           | Inr l' \<Rightarrow> Inr (c' # l')))"

text \<open>
  \<^verbatim>\<open>JSON.parse(JSON.stringify(assets))\<close>: on the value of a tree of this data model (strings,
  booleans, integers, arrays and objects; an absent field stays absent) the copy has the same
  value. The object identities are the subject of the store model further down.
\<close>

definition json_copy :: "asset \<Rightarrow> asset" where
  "json_copy a = a"

fun recursivePathConversion ::
  "string option \<Rightarrow> asset option \<Rightarrow> worker \<Rightarrow> error + asset option" where
  "recursivePathConversion projectPath None workerFn = Inr None"
| "recursivePathConversion None (Some assets) workerFn = Inr (Some assets)"
| "recursivePathConversion (Some p) (Some assets) workerFn =
     (case recursivePathConversion_rec workerFn (Some p) (json_copy assets) of
        Inl e \<Rightarrow> Inl e
      | Inr r \<Rightarrow> Inr (Some r))"

definition recursiveRelativeToAbsolutePath ::
  "string \<Rightarrow> string option \<Rightarrow> asset option \<Rightarrow> error + asset option" where
  "recursiveRelativeToAbsolutePath cwd projectPath assets =
     recursivePathConversion projectPath assets (relativeToAbsolutePath cwd)"

definition recursiveAbsoluteToRelativePath ::
  "string \<Rightarrow> string option \<Rightarrow> asset option \<Rightarrow> error + asset option" where
  "recursiveAbsoluteToRelativePath cwd projectPath assets =
     recursivePathConversion projectPath assets (absoluteToRelativePath cwd)"

text \<open>
  \<^verbatim>\<open>_convertPathForArray\<close>: the flat variant writes the worker's result into the elements of
  the array it was given and returns that array; there is no check of \<^verbatim>\<open>projectPath\<close>.
\<close>

fun set_uri :: "string option \<Rightarrow> asset \<Rightarrow> asset" where
  "set_uri u' (Asset u t n at m ns cs) = Asset u' t n at m ns cs"

fun convertPathForArray_loop ::
  "string option \<Rightarrow> asset option list \<Rightarrow> worker \<Rightarrow> error + asset option list" where
  "convertPathForArray_loop projectPath [] workerFn = Inr []"
| "convertPathForArray_loop projectPath (x # xs) workerFn =
     (case (if shouldConvertPath x
            then (case workerFn projectPath x of
                    Inl e \<Rightarrow> Inl e
                  | Inr u' \<Rightarrow> Inr (map_option (set_uri u') x))
            else Inr x) of
        Inl e \<Rightarrow> Inl e
      | Inr x' \<Rightarrow>
          (case convertPathForArray_loop projectPath xs workerFn of
             Inl e \<Rightarrow> Inl e
           | Inr xs' \<Rightarrow> Inr (x' # xs')))"

fun convertPathForArray ::
  "string option \<Rightarrow> asset option list option \<Rightarrow> worker \<Rightarrow> error + asset option list option" where
  "convertPathForArray projectPath None workerFn = Inr None"
| "convertPathForArray projectPath (Some assets) workerFn =
     (case convertPathForArray_loop projectPath assets workerFn of
        Inl e \<Rightarrow> Inl e
      | Inr assets' \<Rightarrow> Inr (Some assets'))"

definition absoluteToRelativePathForArray ::
  "string \<Rightarrow> string option \<Rightarrow> asset option list option \<Rightarrow> error + asset option list option" where
  "absoluteToRelativePathForArray cwd projectPath assets =
     convertPathForArray projectPath assets (absoluteToRelativePath cwd)"

definition relativeToAbsolutePathForArray ::
  "string \<Rightarrow> string option \<Rightarrow> asset option list option \<Rightarrow> error + asset option list option" where
  "relativeToAbsolutePathForArray cwd projectPath assets =
     convertPathForArray projectPath assets (relativeToAbsolutePath cwd)"

text \<open>
  Spec-level helpers: a tree with \<open>f\<close> applied to the uri of every node that
  \<^verbatim>\<open>shouldConvertPath\<close> accepts, and the normal form of an absolute path (a slash followed by
  segments joined by single slashes, none of them empty, \<^verbatim>\<open>.\<close> or \<^verbatim>\<open>..\<close>).
\<close>

fun convert_uris :: "(string option \<Rightarrow> string option) \<Rightarrow> asset \<Rightarrow> asset"
and convert_uris_list :: "(string option \<Rightarrow> string option) \<Rightarrow> asset list \<Rightarrow> asset list" where
  "convert_uris f (Asset u t n at m ns cs) =
     Asset (if shouldConvertPath (Some (Asset u t n at m ns cs)) then f u else u) t n at m ns
       (case cs of None \<Rightarrow> None | Some l \<Rightarrow> Some (convert_uris_list f l))"
| "convert_uris_list f [] = []"
| "convert_uris_list f (c # l) = convert_uris f c # convert_uris_list f l"

definition proper_segment :: "string \<Rightarrow> bool" where
  "proper_segment s = (s \<noteq> [] \<and> s \<noteq> ''.'' \<and> s \<noteq> ''..'' \<and> slash \<notin> set s)"

definition normalized_absolute :: "string \<Rightarrow> bool" where
  "normalized_absolute u =
     (case u of
        [] \<Rightarrow> False
      | c # rest \<Rightarrow>
          c = slash \<and> (rest = [] \<or> list_all proper_segment (split_by (\<lambda>c. c = slash) rest)))"

text \<open>
  The path that \<^verbatim>\<open>path.resolve\<close> normalizes for a single argument when the working directory
  is absolute, and its segments after normalization.
\<close>

definition base_path :: "string \<Rightarrow> string \<Rightarrow> string" where
  "base_path cwd p =
     (if p = [] then cwd else if starts_with_slash p then p else cwd @ [slash] @ p)"

definition abs_segments :: "string \<Rightarrow> string \<Rightarrow> string list" where
  "abs_segments cwd p =
     rev (foldl (normalize_step False) [] (split_by (\<lambda>c. c = slash) (base_path cwd p)))"

definition segments_of :: "string \<Rightarrow> string list" where
  "segments_of u = (if tl u = [] then [] else split_by (\<lambda>c. c = slash) (tl u))"

text \<open>
  What a path conversion must leave alone: the type of every node, and the uri of every node
  that \<^verbatim>\<open>shouldConvertPath\<close> rejects. \<open>url_uris\<close> lists the uris of the URL-typed nodes in
  pre-order.
\<close>

definition untouched_view :: "asset \<Rightarrow> asset_type option \<times> string option" where
  "untouched_view n = (atype n, if shouldConvertPath (Some n) then None else uri n)"

definition url_uris :: "asset \<Rightarrow> string option list" where
  "url_uris t = map uri (filter (\<lambda>n. atype n = Some URL) (preorder t))"

section \<open>Object store\<close>

text \<open>
  Whether a call changes the objects it was given cannot be read off a value: for that the
  objects live in a store. An address is an index into the store; an object holds the fields of
  an asset and, for \<^verbatim>\<open>children\<close>, the addresses of the child objects. An address outside the
  store stands for a reference that is not an object (null).
\<close>

record object =
  o_uri :: "string option"
  o_type :: "asset_type option"
  o_name :: "string option"
  o_attributes :: "(string \<times> bool) list option"
  o_metadata :: "metadata_entry option list option"
  o_notes :: "note_rec list option"
  o_children :: "nat list option"

type_synonym store = "object list"

text \<open>The asset a worker function sees when it is handed an object: the workers read \<^verbatim>\<open>uri\<close>.\<close>

definition object_view :: "object \<Rightarrow> asset" where
  "object_view ob =
     Asset (o_uri ob) (o_type ob) (o_name ob) (o_attributes ob) (o_metadata ob) (o_notes ob) None"

text \<open>
  \<^verbatim>\<open>JSON.stringify\<close> reads the value of the object graph below an address. The first argument
  bounds the depth of the recursion, as the call stack does: running out of it is the
  \<^verbatim>\<open>RangeError\<close> of a stack overflow (a cyclic graph ends there too; JavaScript reports that
  one as a \<^verbatim>\<open>TypeError\<close>). A reference that is not an object ends in the \<^verbatim>\<open>TypeError\<close> that
  \<^verbatim>\<open>_recursivePathConversion\<close> throws on the null it would get.
\<close>

fun json_stringify :: "nat \<Rightarrow> store \<Rightarrow> nat \<Rightarrow> error + asset"
and json_stringify_list :: "nat \<Rightarrow> store \<Rightarrow> nat list \<Rightarrow> error + asset list" where
  "json_stringify 0 h a = Inl RangeError"
| "json_stringify (Suc k) h a =
     (if a < length h then
        (case o_children (h ! a) of
           None \<Rightarrow>
             Inr (Asset (o_uri (h ! a)) (o_type (h ! a)) (o_name (h ! a)) (o_attributes (h ! a))
                    (o_metadata (h ! a)) (o_notes (h ! a)) None)
         | Some cs \<Rightarrow>
             (case json_stringify_list k h cs of
                Inl e \<Rightarrow> Inl e
              | Inr l \<Rightarrow>
                  Inr (Asset (o_uri (h ! a)) (o_type (h ! a)) (o_name (h ! a))
                         (o_attributes (h ! a)) (o_metadata (h ! a)) (o_notes (h ! a)) (Some l))))
      else Inl TypeError)"
| "json_stringify_list k h [] = Inr []"
| "json_stringify_list k h (c # cs) =
     (case json_stringify k h c of
        Inl e \<Rightarrow> Inl e
      | Inr x \<Rightarrow>
          (case json_stringify_list k h cs of
             Inl e \<Rightarrow> Inl e
           | Inr xs \<Rightarrow> Inr (x # xs)))"

text \<open>
  \<^verbatim>\<open>JSON.parse\<close> builds new objects: each one is put at the end of the store, the children of a
  node before the node itself. It returns the address of the root it built.
\<close>

fun json_parse :: "asset \<Rightarrow> store \<Rightarrow> nat \<times> store"
and json_parse_list :: "asset list \<Rightarrow> store \<Rightarrow> nat list \<times> store" where
  "json_parse (Asset u t n at m ns cs) h =
     (case cs of
        None \<Rightarrow>
          (length h,
           h @ [\<lparr>o_uri = u, o_type = t, o_name = n, o_attributes = at, o_metadata = m,
                 o_notes = ns, o_children = None\<rparr>])
      | Some l \<Rightarrow>
          (case json_parse_list l h of
             (as, h') \<Rightarrow>
               (length h',
                h' @ [\<lparr>o_uri = u, o_type = t, o_name = n, o_attributes = at, o_metadata = m,
                       o_notes = ns, o_children = Some as\<rparr>])))"
| "json_parse_list [] h = ([], h)"
| "json_parse_list (c # l) h =
     (case json_parse c h of
        (a, h1) \<Rightarrow> (case json_parse_list l h1 of (as, h2) \<Rightarrow> (a # as, h2)))"

text \<open>
  \<^verbatim>\<open>_recursivePathConversion\<close> on the store: \<^verbatim>\<open>asset.uri = workerFn(projectPath, asset)\<close>
  writes into the object at the address; \<^verbatim>\<open>asset.children[index] = ...\<close> stores the reference
  that the recursive call returns, which is the reference it was given, so the array keeps its
  contents. The first argument bounds the depth of the recursion.
\<close>

fun recursivePathConversion_at ::
  "nat \<Rightarrow> worker \<Rightarrow> string option \<Rightarrow> nat \<Rightarrow> store \<Rightarrow> error + store"
and recursivePathConversion_at_loop ::
  "nat \<Rightarrow> worker \<Rightarrow> string option \<Rightarrow> nat list \<Rightarrow> store \<Rightarrow> error + store" where
  "recursivePathConversion_at 0 workerFn projectPath a h = Inl RangeError"
| "recursivePathConversion_at (Suc k) workerFn projectPath a h =
     (if a < length h then
        (case (if shouldConvertPath (Some (object_view (h ! a)))
               then workerFn projectPath (Some (object_view (h ! a)))
               else Inr (o_uri (h ! a))) of
           Inl e \<Rightarrow> Inl e
         | Inr u' \<Rightarrow>
             (case o_children (h ! a) of
                None \<Rightarrow> Inr (h[a := (h ! a)\<lparr>o_uri := u'\<rparr>])
              | Some cs \<Rightarrow>
                  recursivePathConversion_at_loop k workerFn projectPath cs
                    (h[a := (h ! a)\<lparr>o_uri := u'\<rparr>])))
      else Inl TypeError)"
| "recursivePathConversion_at_loop k workerFn projectPath [] h = Inr h"
| "recursivePathConversion_at_loop k workerFn projectPath (c # cs) h =
     (case recursivePathConversion_at k workerFn projectPath c h of
        Inl e \<Rightarrow> Inl e
      | Inr h' \<Rightarrow> recursivePathConversion_at_loop k workerFn projectPath cs h')"

text \<open>
  \<^verbatim>\<open>recursivePathConversion\<close> on the store: the reference it returns and the store after the
  call. An absent tree or project path gives back the reference it was given.
\<close>

fun recursivePathConversion_store ::
  "nat \<Rightarrow> string option \<Rightarrow> nat option \<Rightarrow> worker \<Rightarrow> store \<Rightarrow> error + (nat option \<times> store)" where
  "recursivePathConversion_store fuel projectPath None workerFn h = Inr (None, h)"
| "recursivePathConversion_store fuel None (Some a) workerFn h = Inr (Some a, h)"
| "recursivePathConversion_store fuel (Some p) (Some a) workerFn h =
     (case json_stringify fuel h a of
        Inl e \<Rightarrow> Inl e
      | Inr v \<Rightarrow>
          (case json_parse v h of
             (assetsCopy, h1) \<Rightarrow>
               (case recursivePathConversion_at fuel workerFn (Some p) assetsCopy h1 of
                  Inl e \<Rightarrow> Inl e
                | Inr h2 \<Rightarrow> Inr (Some assetsCopy, h2))))"

definition recursiveRelativeToAbsolutePath_store ::
  "nat \<Rightarrow> string \<Rightarrow> string option \<Rightarrow> nat option \<Rightarrow> store \<Rightarrow> error + (nat option \<times> store)" where
  "recursiveRelativeToAbsolutePath_store fuel cwd projectPath assets h =
     recursivePathConversion_store fuel projectPath assets (relativeToAbsolutePath cwd) h"

definition recursiveAbsoluteToRelativePath_store ::
  "nat \<Rightarrow> string \<Rightarrow> string option \<Rightarrow> nat option \<Rightarrow> store \<Rightarrow> error + (nat option \<times> store)" where
  "recursiveAbsoluteToRelativePath_store fuel cwd projectPath assets h =
     recursivePathConversion_store fuel projectPath assets (absoluteToRelativePath cwd) h"

text \<open>
  Spec-level helpers for the store. \<open>represents_above b h a t\<close>: the objects reachable from
  address \<open>a\<close> in \<open>h\<close> hold exactly the tree value \<open>t\<close>, and every one of them sits at an address
  of at least \<open>b\<close>. \<open>height\<close> is the number of nodes on the longest path from the root down,
  \<open>descendants\<close> the number of nodes below the root. \<open>layout b t\<close> is the sequence of objects
  that \<^verbatim>\<open>JSON.parse\<close> appends for \<open>t\<close> to a store of length \<open>b\<close>.
\<close>

fun represents_above :: "nat \<Rightarrow> store \<Rightarrow> nat \<Rightarrow> asset \<Rightarrow> bool"
and represents_above_list :: "nat \<Rightarrow> store \<Rightarrow> nat list \<Rightarrow> asset list \<Rightarrow> bool" where
  "represents_above b h a (Asset u t n at m ns cs) =
     (b \<le> a \<and> a < length h
      \<and> o_uri (h ! a) = u \<and> o_type (h ! a) = t \<and> o_name (h ! a) = n
      \<and> o_attributes (h ! a) = at \<and> o_metadata (h ! a) = m \<and> o_notes (h ! a) = ns
      \<and> (case cs of
            None \<Rightarrow> o_children (h ! a) = None
          | Some l \<Rightarrow>
              (case o_children (h ! a) of
                 None \<Rightarrow> False
               | Some as \<Rightarrow> represents_above_list b h as l)))"
| "represents_above_list b h [] [] = True"
| "represents_above_list b h (a # as) (c # l) =
     (represents_above b h a c \<and> represents_above_list b h as l)"
| "represents_above_list b h [] (c # l) = False"
| "represents_above_list b h (a # as) [] = False"

fun height :: "asset \<Rightarrow> nat"
and height_list :: "asset list \<Rightarrow> nat" where
  "height (Asset u t n at m ns cs) = Suc (case cs of None \<Rightarrow> 0 | Some l \<Rightarrow> height_list l)"
| "height_list [] = 0"
| "height_list (c # l) = max (height c) (height_list l)"

fun descendants :: "asset \<Rightarrow> nat"
and descendants_list :: "asset list \<Rightarrow> nat" where
  "descendants (Asset u t n at m ns cs) = (case cs of None \<Rightarrow> 0 | Some l \<Rightarrow> descendants_list l)"
| "descendants_list [] = 0"
| "descendants_list (c # l) = Suc (descendants c) + descendants_list l"

fun roots :: "nat \<Rightarrow> asset list \<Rightarrow> nat list" where
  "roots b [] = []"
| "roots b (c # l) = (b + descendants c) # roots (Suc (b + descendants c)) l"

fun layout :: "nat \<Rightarrow> asset \<Rightarrow> object list"
and layout_list :: "nat \<Rightarrow> asset list \<Rightarrow> object list" where
  "layout b (Asset u t n at m ns cs) =
     (case cs of
        None \<Rightarrow>
          [\<lparr>o_uri = u, o_type = t, o_name = n, o_attributes = at, o_metadata = m,
            o_notes = ns, o_children = None\<rparr>]
      | Some l \<Rightarrow>
          layout_list b l
          @ [\<lparr>o_uri = u, o_type = t, o_name = n, o_attributes = at, o_metadata = m,
               o_notes = ns, o_children = Some (roots b l)\<rparr>])"
| "layout_list b [] = []"
| "layout_list b (c # l) = layout b c @ layout_list (Suc (b + descendants c)) l"

section \<open>Facts about the string primitives\<close>

lemma split_by_ne: "split_by P u \<noteq> []"
  by (induction u) (auto split: list.splits)

lemma split_by_none: "\<forall>x\<in>set u. \<not> P x \<Longrightarrow> split_by P u = [u]"
  by (induction u) auto

lemma split_by_append: "P c \<Longrightarrow> split_by P (a @ c # b) = split_by P a @ split_by P b"
  by (induction a) (auto split: list.splits simp: split_by_ne)

lemma takeWhile_all: "\<forall>x\<in>set xs. Q x \<Longrightarrow> takeWhile Q xs = xs"
  by (simp add: takeWhile_eq_all_conv)

lemma takeWhile_rev_notin: "c \<notin> set zs \<Longrightarrow> takeWhile (\<lambda>x. x \<noteq> c) (rev zs) = rev zs"
  by (rule takeWhile_all) auto

lemma last_split_by: "last (split_by P u) = rev (takeWhile (\<lambda>c. \<not> P c) (rev u))"
proof (cases "\<exists>x\<in>set u. P x")
  case True
  then obtain ys x zs where u: "u = ys @ x # zs" and x: "P x" and zs: "\<forall>z\<in>set zs. \<not> P z"
    using split_list_last_prop [of u P] by blast
  from x zs have "last (split_by P u) = zs"
    by (simp add: u split_by_append split_by_none)
  moreover from x zs have "rev (takeWhile (\<lambda>c. \<not> P c) (rev u)) = zs"
    by (simp add: u takeWhile_tail takeWhile_all)
  ultimately show ?thesis by simp
next
  case False
  then show ?thesis by (simp add: split_by_none takeWhile_all)
qed

lemma slice_after_last:
  assumes "c \<in> set s"
  shows "slice_from s (lastIndexOf s c + 1) = rev (takeWhile (\<lambda>x. x \<noteq> c) (rev s))"
proof -
  obtain ys zs where s: "s = ys @ c # zs" and zs: "c \<notin> set zs"
    using assms split_list_last [of c s] by blast
  have "nat (int (length ys) + 1) = Suc (length ys)" by simp
  then show ?thesis using zs
    by (simp add: s lastIndexOf_def slice_from_def takeWhile_tail takeWhile_rev_notin)
qed

lemma lastIndexOf_lt_1:
  "lastIndexOf s c < 1 \<longleftrightarrow> (c \<notin> set s \<or> (hd s = c \<and> c \<notin> set (tl s)))"
proof (cases "c \<in> set s")
  case True
  then obtain ys zs where s: "s = ys @ c # zs" and zs: "c \<notin> set zs"
    using split_list_last [of c s] by blast
  show ?thesis using zs
    by (cases ys) (auto simp: s lastIndexOf_def takeWhile_tail takeWhile_rev_notin)
next
  case False
  then show ?thesis by (simp add: lastIndexOf_def)
qed

section \<open>Extension of a URI\<close>

text \<open>
  The two spec-level pieces are what their names say: the final segment is the longest suffix
  free of slashes, and the part after the last dot is the longest suffix free of dots.
\<close>

lemma final_segment_spec_suffix:
  "\<exists>pre. u = pre @ final_segment_spec u
     \<and> (pre = [] \<or> last pre = slash \<or> last pre = backslash)
     \<and> slash \<notin> set (final_segment_spec u) \<and> backslash \<notin> set (final_segment_spec u)"
proof (cases "\<exists>x\<in>set u. x = slash \<or> x = backslash")
  case True
  then obtain ys x zs where u: "u = ys @ x # zs" and x: "x = slash \<or> x = backslash"
    and zs: "\<forall>z\<in>set zs. \<not> (z = slash \<or> z = backslash)"
    using split_list_last_prop [of u "\<lambda>x. x = slash \<or> x = backslash"] by blast
  from x zs have "final_segment_spec u = zs"
    by (auto simp: final_segment_spec_def u takeWhile_tail takeWhile_all)
  with u x zs show ?thesis
    by (intro exI [of _ "ys @ [x]"]) auto
next
  case False
  then have "final_segment_spec u = u"
    by (simp add: final_segment_spec_def takeWhile_all)
  with False show ?thesis by auto
qed

lemma after_last_dot_spec_suffix:
  assumes "dot \<in> set seg"
  shows "\<exists>stem. seg = stem @ dot # after_last_dot_spec seg \<and> dot \<notin> set (after_last_dot_spec seg)"
proof -
  obtain ys zs where s: "seg = ys @ dot # zs" and zs: "dot \<notin> set zs"
    using assms split_list_last [of dot seg] by blast
  then have "after_last_dot_spec seg = zs"
    by (simp add: after_last_dot_spec_def takeWhile_tail takeWhile_rev_notin)
  with s zs show ?thesis by auto
qed

lemma extension_of_uri_spec: "extension_of_uri u = extension_spec u"
  unfolding extension_of_uri_def extension_spec_def final_segment_spec_def after_last_dot_spec_def
  by (simp add: Let_def last_split_by lastIndexOf_lt_1 slice_after_last conj_commute)

text \<open>
  C8. \<^verbatim>\<open>getExtensionFromUri\<close> takes the final path segment, splitting on forward and back
  slashes, and returns what follows the last dot of that segment; it returns the empty string
  when the segment is empty, has no dot, or has its only dot in first position. The argument is
  a string or an object with a \<^verbatim>\<open>uri\<close> field; an absent argument gives the empty string.
\<close>

theorem getExtensionFromUri_extension_spec:
  "getExtensionFromUri None = []
   \<and> getExtensionFromUri (Some (UriString s)) = extension_spec s
   \<and> getExtensionFromUri (Some (AssetObject a)) =
       extension_spec (case uri a of None \<Rightarrow> [] | Some u \<Rightarrow> u)"
proof -
  have "extension_spec [] = []"
    by (simp add: extension_spec_def final_segment_spec_def)
  then show ?thesis
    by (cases "uri a") (simp_all add: extension_of_uri_spec)
qed

theorem getExtensionFromUri_extension_spec_witness:
  "getExtensionFromUri (Some (UriString ''a/b/file.tar.gz'')) = ''gz''
   \<and> getExtensionFromUri (Some (UriString ''a/.gitignore'')) = []
   \<and> getExtensionFromUri (Some (UriString ''a/noext'')) = []
   \<and> getExtensionFromUri (Some (AssetObject (Asset (Some ''a/b/file.tar.gz'') (Some FILE) None None None None None))) = ''gz''"
  using getExtensionFromUri_extension_spec [of "''a/b/file.tar.gz''" "Asset (Some ''a/b/file.tar.gz'') (Some FILE) None None None None None"]
    getExtensionFromUri_extension_spec [of "''a/.gitignore''"]
    getExtensionFromUri_extension_spec [of "''a/noext''"]
  by (simp add: extension_spec_def final_segment_spec_def after_last_dot_spec_def
      slash_def backslash_def dot_def)


section \<open>Note aggregation\<close>

lemma flat_Nil: "flat [] = []"
  by (simp add: flat_def)

lemma find_append: "find P (xs @ ys) = (case find P xs of None \<Rightarrow> find P ys | Some x \<Rightarrow> Some x)"
  by (induction xs) simp_all

lemma flat_append: "flat (xs @ ys) = flat xs @ flat ys"
  by (simp add: flat_def)

lemma flat_Inl: "flat (map (\<lambda>x. Inl (f x)) xs) = map f xs"
  by (induction xs) (simp_all add: flat_def)

lemma flat_Inr: "flat (map (\<lambda>x. Inr (f x)) xs) = concat (map f xs)"
  by (induction xs) (simp_all add: flat_def)

lemma getAllNotes_loop_push:
  "getAllNotes_loop l acc = acc @ map (\<lambda>c. Inr (getAllNotes (Some c))) l"
  by (induction l arbitrary: acc) simp_all

lemma getAllNotes_node:
  "getAllNotes (Some a) =
     own_notes_spec a
     @ concat (map (\<lambda>c. getAllNotes (Some c)) (case children a of None \<Rightarrow> [] | Some l \<Rightarrow> l))"
  by (cases a)
    (simp add: own_notes_spec_def tag_note_def getAllNotes_loop_push flat_Nil flat_append flat_Inl
      flat_Inr split: option.splits)

lemma getAllNotes_preorder:
  "getAllNotes (Some a) = concat (map own_notes_spec (preorder a))"
  "concat (map (\<lambda>c. getAllNotes (Some c)) l) = concat (map own_notes_spec (preorder_list l))"
proof (induction a and l rule: preorder_preorder_list.induct)
  case (1 u t n at m ns cs)
  then show ?case
    using getAllNotes_node [of "Asset u t n at m ns cs"]
    by (cases cs) (simp_all del: getAllNotes.simps)
qed simp_all

text \<open>
  C6. \<^verbatim>\<open>getAllNotes\<close> returns the pre-order flattening of all notes: the node's own notes
  first, in their stored order, each a copy with \<^verbatim>\<open>uri\<close> set to the owning node's uri, then
  each child's flattened notes in child order. An absent asset gives the empty sequence.
\<close>

theorem getAllNotes_preorder_flatten:
  "getAllNotes None = []
   \<and> getAllNotes (Some a) =
       own_notes_spec a
       @ concat (map (\<lambda>c. getAllNotes (Some c)) (case children a of None \<Rightarrow> [] | Some l \<Rightarrow> l))
   \<and> getAllNotes (Some a) = concat (map own_notes_spec (preorder a))"
  using getAllNotes_node [of a] getAllNotes_preorder(1) [of a]
  by (simp add: flat_Nil)

theorem getAllNotes_preorder_flatten_witness:
  "getAllNotes (Some (Asset (Some ''/p'') (Some DIRECTORY) None None None
      (Some [\<lparr>note_fields = [(''content'', ''one'')], note_uri = None\<rparr>,
             \<lparr>note_fields = [(''content'', ''two'')], note_uri = None\<rparr>])
      (Some [Asset (Some ''/p/a'') (Some FILE) None None None
               (Some [\<lparr>note_fields = [(''content'', ''three'')], note_uri = None\<rparr>]) None])))
   = [\<lparr>note_fields = [(''content'', ''one'')], note_uri = Some ''/p''\<rparr>,
      \<lparr>note_fields = [(''content'', ''two'')], note_uri = Some ''/p''\<rparr>,
      \<lparr>note_fields = [(''content'', ''three'')], note_uri = Some ''/p/a''\<rparr>]"
  using getAllNotes_preorder_flatten
    [of "Asset (Some ''/p'') (Some DIRECTORY) None None None
      (Some [\<lparr>note_fields = [(''content'', ''one'')], note_uri = None\<rparr>,
             \<lparr>note_fields = [(''content'', ''two'')], note_uri = None\<rparr>])
      (Some [Asset (Some ''/p/a'') (Some FILE) None None None
               (Some [\<lparr>note_fields = [(''content'', ''three'')], note_uri = None\<rparr>]) None])"]
  by (simp add: own_notes_spec_def flat_def tag_note_def)

section \<open>Search\<close>

lemma findDescendantAssetByUri_preorder:
  "truthy_str target \<Longrightarrow>
     findDescendantAssetByUri (Some a) target = find (\<lambda>n. uri n = target) (preorder a)"
  "truthy_str target \<Longrightarrow>
     findDescendantAssetByUri_loop l target = find (\<lambda>n. uri n = target) (preorder_list l)"
proof (induction a and l rule: preorder_preorder_list.induct)
  case (1 u t n at m ns cs)
  then show ?case by (cases cs) simp_all
next
  case 2
  then show ?case by simp
next
  case (3 c l)
  then show ?case by (simp add: find_append split: option.splits)
qed


text \<open>
  C7. \<^verbatim>\<open>findDescendantAssetByUri\<close> returns the asset itself when its uri is the searched
  one, otherwise the first match of a depth-first search of the children in order, that is the
  first node in pre-order whose uri is the searched one; it returns null when the asset is
  absent, when the URI is absent (null, undefined or empty), and when no node of the subtree has
  that uri.
\<close>

theorem findDescendantAssetByUri_first_match:
  "findDescendantAssetByUri None target = None
   \<and> (\<not> truthy_str target \<longrightarrow> findDescendantAssetByUri (Some a) target = None)
   \<and> (truthy_str target \<longrightarrow>
        findDescendantAssetByUri (Some a) target = find (\<lambda>n. uri n = target) (preorder a))
   \<and> (truthy_str target \<and> uri a = target \<longrightarrow> findDescendantAssetByUri (Some a) target = Some a)
   \<and> (truthy_str target \<and> (\<forall>n\<in>set (preorder a). uri n \<noteq> target) \<longrightarrow>
        findDescendantAssetByUri (Some a) target = None)"
proof -
  have none: "\<not> truthy_str target \<Longrightarrow> findDescendantAssetByUri (Some a) target = None"
    by (cases a) simp
  have self: "uri a = target \<Longrightarrow> find (\<lambda>n. uri n = target) (preorder a) = Some a"
    by (cases a) simp
  have nomatch: "\<forall>n\<in>set (preorder a). uri n \<noteq> target \<Longrightarrow>
      find (\<lambda>n. uri n = target) (preorder a) = None"
    by (simp add: find_None_iff)
  show ?thesis
    using none self nomatch findDescendantAssetByUri_preorder(1) [of target a] by simp
qed

theorem findDescendantAssetByUri_first_match_witness:
  "findDescendantAssetByUri
     (Some (Asset (Some ''/p'') (Some DIRECTORY) None None None None
        (Some [Asset (Some ''/p/a'') (Some DIRECTORY) None None None None
                 (Some [Asset (Some ''/p/x'') (Some FILE) (Some ''first'') None None None None]),
               Asset (Some ''/p/x'') (Some FILE) (Some ''second'') None None None None])))
     (Some ''/p/x'')
   = Some (Asset (Some ''/p/x'') (Some FILE) (Some ''first'') None None None None)
   \<and> findDescendantAssetByUri
     (Some (Asset (Some ''/p'') (Some DIRECTORY) None None None None
        (Some [Asset (Some ''/p/a'') (Some DIRECTORY) None None None None
                 (Some [Asset (Some ''/p/x'') (Some FILE) (Some ''first'') None None None None]),
               Asset (Some ''/p/x'') (Some FILE) (Some ''second'') None None None None])))
     (Some ''/q'')
   = None"
  using findDescendantAssetByUri_first_match
    [of "Some ''/p/x''"
        "Asset (Some ''/p'') (Some DIRECTORY) None None None None
        (Some [Asset (Some ''/p/a'') (Some DIRECTORY) None None None None
                 (Some [Asset (Some ''/p/x'') (Some FILE) (Some ''first'') None None None None]),
               Asset (Some ''/p/x'') (Some FILE) (Some ''second'') None None None None])"]
    findDescendantAssetByUri_first_match
    [of "Some ''/q''"
        "Asset (Some ''/p'') (Some DIRECTORY) None None None None
        (Some [Asset (Some ''/p/a'') (Some DIRECTORY) None None None None
                 (Some [Asset (Some ''/p/x'') (Some FILE) (Some ''first'') None None None None]),
               Asset (Some ''/p/x'') (Some FILE) (Some ''second'') None None None None])"]
  by simp

section \<open>Inclusion filter\<close>

lemma filter_truthy_map_filter: "filter_truthy (map f l) = List.map_filter f l"
  by (induction l) (auto split: option.splits)

lemma filter_loop_map:
  "filterIncludedFileAssets_loop fid l = map (\<lambda>c. filterIncludedFileAssets fid (Some c)) l"
  by (induction l) simp_all

text \<open>
  C3, amended. \<^verbatim>\<open>filterIncludedFileAssets\<close> drops a node (returns null, so the node and its
  whole subtree are absent from the result) exactly when the FileHandler metadata entry found on
  it has a falsy \<^verbatim>\<open>include\<close> (false, missing, null, 0 or the empty string), whatever the
  descendants carry; a node with no FileHandler entry survives; a survivor keeps its own fields,
  and its children are the surviving filtered children in their original order.
\<close>

theorem filterIncludedFileAssets_prune:
  "(filterIncludedFileAssets fid (Some a) = None \<longleftrightarrow>
      (\<exists>e. getHandlerMetadata fid (metadata a) = Some e \<and> \<not> truthy (m_include e)))
   \<and> (getHandlerMetadata fid (metadata a) = None \<longrightarrow> filterIncludedFileAssets fid (Some a) \<noteq> None)
   \<and> (filterIncludedFileAssets fid (Some a) = Some a' \<longrightarrow>
        uri a' = uri a \<and> atype a' = atype a \<and> name a' = name a \<and> attributes a' = attributes a
        \<and> metadata a' = metadata a \<and> asset_notes a' = asset_notes a
        \<and> children a' =
            map_option (List.map_filter (\<lambda>c. filterIncludedFileAssets fid (Some c))) (children a))"
proof (cases a)
  case (Asset u t n at m ns cs)
  show ?thesis
    by (cases "getHandlerMetadata fid m"; cases cs)
      (auto simp: Asset filter_loop_map filter_truthy_map_filter)
qed

theorem filterIncludedFileAssets_prune_witness:
  "filterIncludedFileAssets (Some ''StatWrap.FileHandler'')
     (Some (Asset (Some ''/p'') (Some DIRECTORY) None None None None
        (Some [Asset (Some ''/p/a'') (Some DIRECTORY) None None
                 (Some [Some \<lparr>m_id = JStr ''StatWrap.FileHandler'', m_include = JBool False\<rparr>])
                 None
                 (Some [Asset (Some ''/p/a/k'') (Some FILE) None None
                          (Some [Some \<lparr>m_id = JStr ''StatWrap.FileHandler'',
                                        m_include = JBool True\<rparr>]) None None]),
               Asset (Some ''/p/b'') (Some FILE) None None
                 (Some [Some \<lparr>m_id = JStr ''StatWrap.FileHandler'', m_include = JBool True\<rparr>])
                 None None,
               Asset (Some ''/p/c'') (Some FILE) None None None None None])))
   = Some (Asset (Some ''/p'') (Some DIRECTORY) None None None None
        (Some [Asset (Some ''/p/b'') (Some FILE) None None
                 (Some [Some \<lparr>m_id = JStr ''StatWrap.FileHandler'', m_include = JBool True\<rparr>])
                 None None,
               Asset (Some ''/p/c'') (Some FILE) None None None None None]))"
  using filterIncludedFileAssets_prune
    [of "Some ''StatWrap.FileHandler''"
        "Asset (Some ''/p'') (Some DIRECTORY) None None None None
        (Some [Asset (Some ''/p/a'') (Some DIRECTORY) None None
                 (Some [Some \<lparr>m_id = JStr ''StatWrap.FileHandler'', m_include = JBool False\<rparr>])
                 None
                 (Some [Asset (Some ''/p/a/k'') (Some FILE) None None
                          (Some [Some \<lparr>m_id = JStr ''StatWrap.FileHandler'',
                                        m_include = JBool True\<rparr>]) None None]),
               Asset (Some ''/p/b'') (Some FILE) None None
                 (Some [Some \<lparr>m_id = JStr ''StatWrap.FileHandler'', m_include = JBool True\<rparr>])
                 None None,
               Asset (Some ''/p/c'') (Some FILE) None None None None None])"]
  by (simp add: js_trim_def is_space1_def is_space2_def is_space3_def)

text \<open>
  "Exactly when \<^verbatim>\<open>include\<close> is false" does not hold: on an entry that has no \<^verbatim>\<open>include\<close>
  field the node is dropped although its \<^verbatim>\<open>include\<close> is not \<^verbatim>\<open>false\<close>.
\<close>

theorem filterIncludedFileAssets_prune_counterexample:
  "filterIncludedFileAssets (Some ''StatWrap.FileHandler'')
     (Some (Asset (Some ''/p/a'') (Some FILE) None None
        (Some [Some \<lparr>m_id = JStr ''StatWrap.FileHandler'', m_include = JUndefined\<rparr>])
        None None)) = None
   \<and> getHandlerMetadata (Some ''StatWrap.FileHandler'')
        (metadata (Asset (Some ''/p/a'') (Some FILE) None None
          (Some [Some \<lparr>m_id = JStr ''StatWrap.FileHandler'', m_include = JUndefined\<rparr>])
          None None))
       = Some \<lparr>m_id = JStr ''StatWrap.FileHandler'', m_include = JUndefined\<rparr>
   \<and> m_include \<lparr>m_id = JStr ''StatWrap.FileHandler'', m_include = JUndefined\<rparr> \<noteq> JBool False"
  by (simp add: js_trim_def is_space1_def is_space2_def is_space3_def)

lemma find_first_match:
  "\<forall>x\<in>set before. \<not> P x \<Longrightarrow> P y \<Longrightarrow> find P (before @ y # rest) = Some y"
  by (induction before) simp_all

text \<open>
  C10, amended. When the first entry with the FileHandler id in the metadata list of an asset,
  the one the lookup finds, has a missing or otherwise falsy \<^verbatim>\<open>include\<close> (the FileHandler id
  being non-blank), \<^verbatim>\<open>filterIncludedFileAssets\<close> drops the node and with it the whole subtree:
  a present entry without the flag counts as exclude, not as the default-include case. Entries
  after the first one with that id play no part.
\<close>

theorem filterIncludedFileAssets_missing_include:
  assumes "js_trim h \<noteq> []"
    and "metadata a = Some (before @ Some e # rest)"
    and "\<forall>e'. Some e' \<in> set before \<longrightarrow> m_id e' \<noteq> JStr h"
    and "m_id e = JStr h"
    and "\<not> truthy (m_include e)"
  shows "filterIncludedFileAssets (Some h) (Some a) = None"
proof -
  have none_before: "\<forall>x\<in>set before. \<not> is_handler_entry h x"
  proof
    fix x assume x: "x \<in> set before"
    show "\<not> is_handler_entry h x"
    proof (cases x)
      case None
      then show ?thesis by simp
    next
      case (Some e')
      with x assms(3) show ?thesis by simp
    qed
  qed
  have "is_handler_entry h (Some e)" using assms(4) by simp
  with none_before have found: "find (is_handler_entry h) (before @ Some e # rest) = Some (Some e)"
    by (rule find_first_match)
  have "h \<noteq> []" using assms(1) by (auto simp: js_trim_def)
  then have "getHandlerMetadata (Some h) (Some (before @ Some e # rest)) = Some e"
    using assms(1) found by simp
  then have "getHandlerMetadata (Some h) (metadata a) = Some e"
    by (simp add: assms(2))
  then show ?thesis using assms(5) by (cases a) simp
qed

theorem filterIncludedFileAssets_missing_include_witness:
  "filterIncludedFileAssets (Some ''StatWrap.FileHandler'')
     (Some (Asset (Some ''/p/a'') (Some DIRECTORY) None None
        (Some [None,
               Some \<lparr>m_id = JStr ''StatWrap.PythonHandler'', m_include = JBool True\<rparr>,
               Some \<lparr>m_id = JStr ''StatWrap.FileHandler'', m_include = JUndefined\<rparr>,
               Some \<lparr>m_id = JStr ''StatWrap.FileHandler'', m_include = JBool True\<rparr>]) None
        (Some [Asset (Some ''/p/a/b'') (Some FILE) None None
                 (Some [Some \<lparr>m_id = JStr ''StatWrap.FileHandler'', m_include = JBool True\<rparr>])
                 None None]))) = None"
  using filterIncludedFileAssets_missing_include
    [of "''StatWrap.FileHandler''"
        "Asset (Some ''/p/a'') (Some DIRECTORY) None None
        (Some [None,
               Some \<lparr>m_id = JStr ''StatWrap.PythonHandler'', m_include = JBool True\<rparr>,
               Some \<lparr>m_id = JStr ''StatWrap.FileHandler'', m_include = JUndefined\<rparr>,
               Some \<lparr>m_id = JStr ''StatWrap.FileHandler'', m_include = JBool True\<rparr>]) None
        (Some [Asset (Some ''/p/a/b'') (Some FILE) None None
                 (Some [Some \<lparr>m_id = JStr ''StatWrap.FileHandler'', m_include = JBool True\<rparr>])
                 None None])"
        "[None, Some \<lparr>m_id = JStr ''StatWrap.PythonHandler'', m_include = JBool True\<rparr>]"
        "\<lparr>m_id = JStr ''StatWrap.FileHandler'', m_include = JUndefined\<rparr>"
        "[Some \<lparr>m_id = JStr ''StatWrap.FileHandler'', m_include = JBool True\<rparr>]"]
  by (simp add: js_trim_def is_space1_def is_space2_def is_space3_def)

text \<open>
  That the list merely contains a FileHandler entry without \<^verbatim>\<open>include\<close> is not enough: when
  an earlier entry with the same id has a truthy \<^verbatim>\<open>include\<close>, the lookup finds that one and
  the node is kept.
\<close>

theorem filterIncludedFileAssets_missing_include_counterexample:
  "Some \<lparr>m_id = JStr ''StatWrap.FileHandler'', m_include = JUndefined\<rparr>
     \<in> set [Some \<lparr>m_id = JStr ''StatWrap.FileHandler'', m_include = JBool True\<rparr>,
             Some \<lparr>m_id = JStr ''StatWrap.FileHandler'', m_include = JUndefined\<rparr>]
   \<and> filterIncludedFileAssets (Some ''StatWrap.FileHandler'')
        (Some (Asset (Some ''/p/a'') (Some FILE) None None
           (Some [Some \<lparr>m_id = JStr ''StatWrap.FileHandler'', m_include = JBool True\<rparr>,
                  Some \<lparr>m_id = JStr ''StatWrap.FileHandler'', m_include = JUndefined\<rparr>])
           None None))
       = Some (Asset (Some ''/p/a'') (Some FILE) None None
           (Some [Some \<lparr>m_id = JStr ''StatWrap.FileHandler'', m_include = JBool True\<rparr>,
                  Some \<lparr>m_id = JStr ''StatWrap.FileHandler'', m_include = JUndefined\<rparr>])
           None None)"
  by (simp add: js_trim_def is_space1_def is_space2_def is_space3_def)

section \<open>Ancestor paths between a URI and a root\<close>


lemma indexOf_str_nonneg_or: "indexOf_str s pat = -1 \<or> 0 \<le> indexOf_str s pat"
  by (induction s) (auto simp: Let_def)

lemma indexOf_str_zero: "indexOf_str s pat = 0 \<longleftrightarrow> prefix pat s"
proof (cases s)
  case Nil
  then show ?thesis by simp
next
  case (Cons c t)
  then show ?thesis
    using indexOf_str_nonneg_or [of t pat] by (auto simp: Let_def)
qed

lemma includes_indexOf_prefix: "(includes_str a r \<and> indexOf_str a r = 0) \<longleftrightarrow> prefix r a"
  using indexOf_str_zero [of a r] by (auto simp: includes_str_def)

lemma lastIndexOf_append_seg:
  "path_sep \<notin> set s \<Longrightarrow> lastIndexOf (x @ path_sep # s) path_sep = int (length x)"
  by (simp add: lastIndexOf_def takeWhile_tail takeWhile_rev_notin)

lemma findAllDescendants_root_guard:
  assumes "r \<noteq> []"
  shows "r @ x \<noteq> substring0 r (indexOf r path_sep)"
proof -
  have "length (substring0 r (indexOf r path_sep)) < length r"
  proof (cases "path_sep \<in> set r")
    case True
    then have "length (takeWhile (\<lambda>x. x \<noteq> path_sep) r) < length r"
      by (induction r) auto
    with True show ?thesis by (simp add: substring0_def indexOf_def)
  next
    case False
    with assms show ?thesis by (simp add: substring0_def indexOf_def)
  qed
  then show ?thesis by (metis length_append not_add_less1)
qed

lemma findAllDescendants_loop_step:
  assumes "r \<noteq> []" "path_sep \<notin> set s"
  shows "findAllDescendantAssetsByUri_loop (uri_under r (segs @ [s])) r acc =
         findAllDescendantAssetsByUri_loop (uri_under r segs) r (acc @ [uri_under r segs])"
proof -
  have ne: "uri_under r (segs @ [s]) \<noteq> r"
    by (simp add: uri_under_def)
  have split: "uri_under r (segs @ [s]) = uri_under r segs @ path_sep # s"
    by (simp add: uri_under_def)
  have last: "lastIndexOf (uri_under r (segs @ [s])) path_sep = int (length (uri_under r segs))"
    unfolding split using assms(2) by (rule lastIndexOf_append_seg)
  have sub: "substring0 (uri_under r (segs @ [s])) (int (length (uri_under r segs))) = uri_under r segs"
    by (simp add: split substring0_def)
  have guard: "uri_under r segs \<noteq> substring0 r (indexOf r path_sep)"
    unfolding uri_under_def using assms(1) by (rule findAllDescendants_root_guard)
  show ?thesis
    by (subst findAllDescendantAssetsByUri_loop.simps) (simp add: ne last sub guard Let_def)
qed

lemma findAllDescendants_loop_segments:
  assumes "r \<noteq> []" "\<forall>s\<in>set segs. path_sep \<notin> set s"
  shows "findAllDescendantAssetsByUri_loop (uri_under r segs) r acc =
         acc @ rev (map (\<lambda>k. uri_under r (take k segs)) [0..<length segs])"
  using assms(2)
proof (induction segs arbitrary: acc rule: rev_induct)
  case Nil
  show ?case
    by (subst findAllDescendantAssetsByUri_loop.simps) (simp add: uri_under_def)
next
  case (snoc s segs)
  have "findAllDescendantAssetsByUri_loop (uri_under r (segs @ [s])) r acc =
        findAllDescendantAssetsByUri_loop (uri_under r segs) r (acc @ [uri_under r segs])"
    using assms(1) snoc.prems by (intro findAllDescendants_loop_step) simp_all
  also have "\<dots> = (acc @ [uri_under r segs])
        @ rev (map (\<lambda>k. uri_under r (take k segs)) [0..<length segs])"
    using snoc.prems by (intro snoc.IH) simp
  also have "\<dots> = acc @ rev (map (\<lambda>k. uri_under r (take k (segs @ [s]))) [0..<length (segs @ [s])])"
    by simp
  finally show ?case .
qed


lemma includes_str_prefix: "prefix r a \<Longrightarrow> includes_str a r"
  using includes_indexOf_prefix [of a r] by simp

text \<open>
  C2, amended. When \<^verbatim>\<open>assetUri\<close> is the non-empty \<^verbatim>\<open>rootUri\<close> followed by path segments,
  \<^verbatim>\<open>findAllDescendantAssetsByUri\<close> returns the ancestor paths of the leaf from the innermost one
  outwards, the leaf itself excluded and \<^verbatim>\<open>rootUri\<close> itself included as the last element; the
  list is empty when \<^verbatim>\<open>assetUri\<close> equals \<^verbatim>\<open>rootUri\<close>, when \<^verbatim>\<open>rootUri\<close> is not a prefix of
  \<^verbatim>\<open>assetUri\<close> at position 0, and when either argument is absent (null, undefined or empty).
\<close>

theorem findAllDescendantAssetsByUri_ancestors:
  "(r \<noteq> [] \<and> (\<forall>s\<in>set segs. path_sep \<notin> set s) \<longrightarrow>
      findAllDescendantAssetsByUri (Some (uri_under r segs)) (Some r)
      = rev (map (\<lambda>k. uri_under r (take k segs)) [0..<length segs]))
   \<and> (\<not> prefix r a \<or> a = [] \<or> r = [] \<longrightarrow> findAllDescendantAssetsByUri (Some a) (Some r) = [])
   \<and> findAllDescendantAssetsByUri None x = []
   \<and> findAllDescendantAssetsByUri y None = []"
proof -
  have "findAllDescendantAssetsByUri (Some (uri_under r segs)) (Some r)
        = rev (map (\<lambda>k. uri_under r (take k segs)) [0..<length segs])"
    if "r \<noteq> []" "\<forall>s\<in>set segs. path_sep \<notin> set s"
  proof -
    have "prefix r (uri_under r segs)" by (simp add: uri_under_def)
    moreover have "uri_under r segs \<noteq> []" using that(1) by (simp add: uri_under_def)
    ultimately show ?thesis
      using that findAllDescendants_loop_segments [of r segs "[]"]
      by (simp add: findAllDescendantAssetsByUri_def includes_str_prefix indexOf_str_zero)
  qed
  moreover have "findAllDescendantAssetsByUri (Some a) (Some r) = []"
    if "\<not> prefix r a \<or> a = [] \<or> r = []"
    using that by (auto simp: findAllDescendantAssetsByUri_def indexOf_str_zero)
  moreover have "findAllDescendantAssetsByUri None x = []"
    by (simp add: findAllDescendantAssetsByUri_def)
  moreover have "findAllDescendantAssetsByUri y None = []"
    by (cases y) (simp_all add: findAllDescendantAssetsByUri_def)
  ultimately show ?thesis by blast
qed

theorem findAllDescendantAssetsByUri_ancestors_witness:
  "findAllDescendantAssetsByUri (Some ''proj/a/b/c.R'') (Some ''proj'') = [''proj/a/b'', ''proj/a'', ''proj'']
   \<and> findAllDescendantAssetsByUri (Some ''/other/a'') (Some ''/proj'') = []"
  using findAllDescendantAssetsByUri_ancestors [of "''proj''" "[''a'', ''b'', ''c.R'']" "''/other/a''"]
    findAllDescendantAssetsByUri_ancestors [of "''/proj''" "[]" "''/other/a''"]
  by (simp add: uri_under_def path_sep_def slash_def upt_rec)

text \<open>
  \<^verbatim>\<open>rootUri\<close> is not excluded from the result: on the spec's own example the code returns it
  as the last element.
\<close>

theorem findAllDescendantAssetsByUri_root_counterexample:
  "findAllDescendantAssetsByUri (Some ''/proj/src/pkg/mod.py'') (Some ''/proj'')
   = [''/proj/src/pkg'', ''/proj/src'', ''/proj'']
   \<and> findAllDescendantAssetsByUri (Some ''/proj/src/pkg/mod.py'') (Some ''/proj'')
   \<noteq> [''/proj/src/pkg'', ''/proj/src'']"
proof -
  have "findAllDescendantAssetsByUri_loop ''/proj/src/pkg/mod.py'' ''/proj'' []
        = [''/proj/src/pkg'', ''/proj/src'', ''/proj'']"
    using findAllDescendants_loop_segments [of "''/proj''" "[''src'', ''pkg'', ''mod.py'']" "[]"]
    by (simp add: uri_under_def path_sep_def slash_def upt_rec)
  then show ?thesis
    by (simp add: findAllDescendantAssetsByUri_def includes_str_def)
qed

section \<open>Facts about the path module\<close>


lemma join_with_Cons_head: "join_with sep ((x # h) # t) = x # join_with sep (h # t)"
  by (cases t) simp_all

lemma join_split: "join_with [c] (split_by (\<lambda>x. x = c) s) = s"
proof (induction s)
  case Nil
  show ?case by simp
next
  case (Cons x s)
  obtain h t where sp: "split_by (\<lambda>x. x = c) s = h # t"
    using split_by_ne [of "\<lambda>x. x = c" s] by (cases "split_by (\<lambda>x. x = c) s") auto
  show ?case using Cons sp by (simp add: join_with_Cons_head)
qed

lemma split_join:
  "xs \<noteq> [] \<Longrightarrow> \<forall>s\<in>set xs. c \<notin> set s \<Longrightarrow> split_by (\<lambda>x. x = c) (join_with [c] xs) = xs"
proof (induction "[c]" xs rule: join_with.induct)
  case 1
  then show ?case by simp
next
  case (2 s)
  then show ?case by (auto intro!: split_by_none)
next
  case (3 s t ss)
  then have "split_by (\<lambda>x. x = c) s = [s]" by (auto intro!: split_by_none)
  with 3 show ?case by (simp add: split_by_append)
qed

lemma split_by_sep_free: "\<forall>s\<in>set (split_by (\<lambda>x. x = c) p). c \<notin> set s"
proof (induction p)
  case Nil
  show ?case by simp
next
  case (Cons x p)
  obtain h t where sp: "split_by (\<lambda>x. x = c) p = h # t"
    using split_by_ne [of "\<lambda>x. x = c" p] by (cases "split_by (\<lambda>x. x = c) p") auto
  show ?case using Cons sp by auto
qed

lemma join_with_eq_Nil: "\<forall>s\<in>set xs. s \<noteq> [] \<Longrightarrow> join_with sep xs = [] \<longleftrightarrow> xs = []"
  by (induction sep xs rule: join_with.induct) auto

lemma join_with_hd: "x \<noteq> [] \<Longrightarrow> hd (join_with sep (x # xs)) = hd x"
  by (cases xs) simp_all

lemma normalize_step_proper: "proper_segment s \<Longrightarrow> normalize_step a st s = s # st"
  by (simp add: normalize_step_def proper_segment_def)

lemma normalize_proper:
  "list_all proper_segment segs \<Longrightarrow> foldl (normalize_step a) st segs = rev segs @ st"
  by (induction segs arbitrary: st) (simp_all add: normalize_step_proper)

lemma normalize_pops:
  "k \<le> length st \<Longrightarrow> list_all proper_segment st \<Longrightarrow>
     foldl (normalize_step a) st (replicate k ''..'') = drop k st"
proof (induction k arbitrary: st)
  case 0
  show ?case by simp
next
  case (Suc k)
  then obtain x rest where st: "st = x # rest" by (cases st) auto
  with Suc.prems have "x \<noteq> ''..''" by (auto simp: proper_segment_def)
  then have "normalize_step a st ''..'' = rest" by (simp add: normalize_step_def st)
  with Suc st show ?case by simp
qed

lemma normalize_abs_proper:
  "list_all proper_segment st \<Longrightarrow> \<forall>s\<in>set xs. slash \<notin> set s \<Longrightarrow>
     list_all proper_segment (foldl (normalize_step False) st xs)"
proof (induction xs arbitrary: st)
  case Nil
  then show ?case by simp
next
  case (Cons x xs)
  have "list_all proper_segment (normalize_step False st x)"
  proof (cases "x = [] \<or> x = ''.''")
    case True
    with Cons.prems(1) show ?thesis by (auto simp: normalize_step_def)
  next
    case False
    note nontrivial = this
    show ?thesis
    proof (cases "x = ''..''")
      case True
      show ?thesis
      proof (cases st)
        case Nil
        with True show ?thesis by (simp add: normalize_step_def)
      next
        case (Cons y rest)
        with Cons.prems(1) have "proper_segment y" "list_all proper_segment rest"
          by simp_all
        then have "y \<noteq> ''..''" "list_all proper_segment rest"
          by (simp_all add: proper_segment_def)
        with True Cons show ?thesis by (simp add: normalize_step_def)
      qed
    next
      case False
      with nontrivial Cons.prems(2) have "proper_segment x"
        by (simp add: proper_segment_def)
      with Cons.prems(1) show ?thesis by (simp add: normalize_step_proper)
    qed
  qed
  with Cons show ?case by simp
qed

lemma abs_segments_proper: "list_all proper_segment (abs_segments cwd p)"
  unfolding abs_segments_def using normalize_abs_proper [of "[]"] split_by_sep_free [of slash]
  by simp


lemma resolve_single:
  assumes "starts_with_slash cwd"
  shows "path_resolve cwd [Some x] = Inr (slash # join_with [slash] (abs_segments cwd x))"
proof -
  have cwd: "cwd \<noteq> []" using assms by (auto simp: starts_with_slash_def)
  have loop: "resolve_loop [Some x, Some cwd] [] = Inr (base_path cwd x @ [slash], True)"
    using assms cwd by (simp add: validateString_def base_path_def)
  have "split_by (\<lambda>c. c = slash) (base_path cwd x @ [slash])
        = split_by (\<lambda>c. c = slash) (base_path cwd x) @ [[]]"
    using split_by_append [of "\<lambda>c. c = slash" slash "base_path cwd x" "[]"] by simp
  then have "normalizeString False (base_path cwd x @ [slash])
        = join_with [slash] (abs_segments cwd x)"
    by (simp add: normalizeString_def abs_segments_def normalize_step_def)
  with loop show ?thesis by (simp add: path_resolve_def)
qed

lemma resolve_pair:
  assumes "starts_with_slash cwd" "r \<noteq> []" "\<not> starts_with_slash r"
  shows "path_resolve cwd [Some p, Some r]
         = Inr (slash # join_with [slash]
                  (rev (foldl (normalize_step False) (rev (abs_segments cwd p))
                         (split_by (\<lambda>c. c = slash) r))))"
proof -
  have cwd: "cwd \<noteq> []" using assms by (auto simp: starts_with_slash_def)
  have loop: "resolve_loop [Some r, Some p, Some cwd] []
              = Inr (base_path cwd p @ [slash] @ r @ [slash], True)"
    using assms cwd by (simp add: validateString_def base_path_def)
  have "split_by (\<lambda>c. c = slash) (base_path cwd p @ slash # (r @ [slash]))
        = split_by (\<lambda>c. c = slash) (base_path cwd p)
          @ split_by (\<lambda>c. c = slash) (r @ [slash])"
    by (rule split_by_append) simp
  moreover have "split_by (\<lambda>c. c = slash) (r @ [slash]) = split_by (\<lambda>c. c = slash) r @ [[]]"
    using split_by_append [of "\<lambda>c. c = slash" slash r "[]"] by simp
  ultimately have "normalizeString False (base_path cwd p @ [slash] @ r @ [slash])
        = join_with [slash]
            (rev (foldl (normalize_step False) (rev (abs_segments cwd p))
                   (split_by (\<lambda>c. c = slash) r)))"
    by (simp add: normalizeString_def abs_segments_def normalize_step_def)
  with loop show ?thesis by (simp add: path_resolve_def)
qed

lemma resolve_skip_empty: "path_resolve cwd [Some p, Some []] = path_resolve cwd [Some p]"
  by (simp add: path_resolve_def validateString_def)

lemma path_segments_join:
  assumes "list_all proper_segment segs"
  shows "path_segments (slash # join_with [slash] segs) = segs"
proof (cases segs)
  case Nil
  then show ?thesis by (simp add: path_segments_def)
next
  case (Cons s ss)
  have free: "\<forall>s\<in>set segs. slash \<notin> set s" and ne: "\<forall>s\<in>set segs. s \<noteq> []"
    using assms by (auto simp: list_all_iff proper_segment_def)
  have "split_by (\<lambda>c. c = slash) (join_with [slash] segs) = segs"
    using Cons free by (intro split_join) simp_all
  then have "split_by (\<lambda>c. c = slash) (slash # join_with [slash] segs) = [] # segs"
    by simp
  with ne show ?thesis by (simp add: path_segments_def filter_id_conv)
qed

lemma normalized_absolute_segments:
  assumes "normalized_absolute u"
  shows "u = slash # join_with [slash] (segments_of u)" and "list_all proper_segment (segments_of u)"
proof -
  obtain rest where u: "u = slash # rest"
    and rest: "rest = [] \<or> list_all proper_segment (split_by (\<lambda>c. c = slash) rest)"
    using assms by (auto simp: normalized_absolute_def split: list.splits)
  show "u = slash # join_with [slash] (segments_of u)"
    by (simp add: u segments_of_def join_split)
  show "list_all proper_segment (segments_of u)"
    using rest by (auto simp: u segments_of_def)
qed


lemma abs_segments_normalized:
  assumes "normalized_absolute u"
  shows "abs_segments cwd u = segments_of u"
proof -
  obtain rest where u: "u = slash # rest"
    and rest: "rest = [] \<or> list_all proper_segment (split_by (\<lambda>c. c = slash) rest)"
    using assms by (auto simp: normalized_absolute_def split: list.splits)
  have base: "\<And>r. base_path cwd (slash # r) = slash # r"
    by (simp add: base_path_def starts_with_slash_def)
  have step: "normalize_step False [] [] = []"
    by (simp add: normalize_step_def)
  show ?thesis
  proof (cases "rest = []")
    case True
    then show ?thesis
      by (simp add: abs_segments_def base u segments_of_def step)
  next
    case False
    with rest have "list_all proper_segment (split_by (\<lambda>c. c = slash) rest)" by simp
    then have "foldl (normalize_step False) [] (split_by (\<lambda>c. c = slash) rest)
               = rev (split_by (\<lambda>c. c = slash) rest)"
      by (simp add: normalize_proper)
    with False show ?thesis
      by (simp add: abs_segments_def base u segments_of_def step)
  qed
qed

lemma take_prefix: "prefix ys xs \<Longrightarrow> take (length ys) xs = ys"
  by (auto simp: prefix_def)

lemma longest_common_prefix_same: "longest_common_prefix xs xs = xs"
  by (induction xs) simp_all

lemma relative_segments:
  assumes "starts_with_slash cwd" "normalized_absolute u"
  shows "path_relative cwd (Some p) (Some u)
         = Inr (join_with [slash]
                  (replicate (length (abs_segments cwd p)
                              - length (longest_common_prefix (abs_segments cwd p) (segments_of u)))
                     ''..''
                   @ drop (length (longest_common_prefix (abs_segments cwd p) (segments_of u)))
                       (segments_of u)))"
proof -
  let ?F = "abs_segments cwd p" and ?T = "segments_of u"
  have rp: "path_resolve cwd [Some p] = Inr (slash # join_with [slash] ?F)"
    using assms(1) by (rule resolve_single)
  have ru: "path_resolve cwd [Some u] = Inr (slash # join_with [slash] ?T)"
    using resolve_single [OF assms(1), of u] abs_segments_normalized [OF assms(2), of cwd] by simp
  have sF: "path_segments (slash # join_with [slash] ?F) = ?F"
    by (rule path_segments_join) (rule abs_segments_proper)
  have sT: "path_segments (slash # join_with [slash] ?T) = ?T"
    by (rule path_segments_join) (rule normalized_absolute_segments(2) [OF assms(2)])
  have same: "?F = ?T \<Longrightarrow>
      join_with [slash] (replicate (length ?F - length (longest_common_prefix ?F ?T)) ''..''
        @ drop (length (longest_common_prefix ?F ?T)) ?T) = []"
    by (simp add: longest_common_prefix_same)
  show ?thesis
  proof (cases "p = u")
    case True
    then have "?F = ?T" using abs_segments_normalized [OF assms(2), of cwd] by simp
    with True same show ?thesis by (simp add: path_relative_def validateString_def)
  next
    case False
    show ?thesis
    proof (cases "slash # join_with [slash] ?F = slash # join_with [slash] ?T")
      case True
      then have "?F = ?T" using sF sT by metis
      with True False same rp ru show ?thesis
        by (simp add: path_relative_def validateString_def)
    next
      case neq: False
      with False rp ru sF sT show ?thesis
        by (simp add: path_relative_def validateString_def Let_def)
    qed
  qed
qed

lemma list_all_drop: "list_all P xs \<Longrightarrow> list_all P (drop n xs)"
  using set_drop_subset [of n xs] by (auto simp: list_all_iff)

lemma climb_segments:
  assumes "list_all proper_segment ds"
  shows "\<forall>s\<in>set (replicate k ''..'' @ ds). s \<noteq> [] \<and> slash \<notin> set s"
proof
  fix s assume "s \<in> set (replicate k ''..'' @ ds)"
  then consider "s = ''..''" | "s \<in> set ds" by (auto split: if_splits)
  then show "s \<noteq> [] \<and> slash \<notin> set s"
  proof cases
    case 1
    then show ?thesis by (simp add: slash_def)
  next
    case 2
    with assms have "proper_segment s" by (simp add: list_all_iff)
    then show ?thesis by (simp add: proper_segment_def)
  qed
qed

lemma climb_then_descend:
  assumes "list_all proper_segment st" "list_all proper_segment ds" "k \<le> length st"
  shows "foldl (normalize_step False) st (replicate k ''..'' @ ds) = rev ds @ drop k st"
proof -
  have "foldl (normalize_step False) st (replicate k ''..'') = drop k st"
    using assms(3,1) by (rule normalize_pops)
  then show ?thesis using assms(2) by (simp add: normalize_proper)
qed

lemma common_prefix_glue:
  assumes "take c F = take c T" "c \<le> length F"
  shows "rev (drop c T) @ drop (length F - c) (rev F) = rev T"
proof -
  have "drop (length F - c) (rev F) = rev (take c F)" by (simp add: rev_take)
  with assms(1) have "rev (drop c T) @ drop (length F - c) (rev F) = rev (take c T @ drop c T)"
    by (simp only: rev_append)
  then show ?thesis by (simp only: append_take_drop_id)
qed

lemma roundtrip_uri:
  assumes "starts_with_slash cwd" "normalized_absolute u"
  shows "\<exists>r. path_relative cwd (Some p) (Some u) = Inr r
           \<and> path_resolve cwd [Some p, Some (join_with [posix_sep] (split_by (\<lambda>c. c = path_sep) r))]
               = Inr u"
proof -
  let ?F = "abs_segments cwd p" and ?T = "segments_of u"
  let ?c = "length (longest_common_prefix ?F ?T)"
  let ?segs = "replicate (length ?F - ?c) ''..'' @ drop ?c ?T"
  let ?r = "join_with [slash] ?segs"
  have rel: "path_relative cwd (Some p) (Some u) = Inr ?r"
    using assms by (rule relative_segments)
  have post: "join_with [posix_sep] (split_by (\<lambda>c. c = path_sep) ?r) = ?r"
    by (simp add: posix_sep_def path_sep_def join_split)
  have pF: "list_all proper_segment ?F" by (rule abs_segments_proper)
  have pT: "list_all proper_segment ?T" by (rule normalized_absolute_segments(2) [OF assms(2)])
  have u: "u = slash # join_with [slash] ?T" by (rule normalized_absolute_segments(1) [OF assms(2)])
  have takeF: "take ?c ?F = longest_common_prefix ?F ?T"
    using longest_common_prefix_prefix1 [of ?F ?T] by (rule take_prefix)
  have takeT: "take ?c ?T = longest_common_prefix ?F ?T"
    using longest_common_prefix_prefix2 [of ?F ?T] by (rule take_prefix)
  have cF: "?c \<le> length ?F"
    using longest_common_prefix_prefix1 [of ?F ?T] by (rule prefix_length_le)
  have pD: "list_all proper_segment (drop ?c ?T)" using pT by (rule list_all_drop)
  have good: "\<forall>s\<in>set ?segs. s \<noteq> [] \<and> slash \<notin> set s"
    using pD by (rule climb_segments)
  have glue: "rev (drop ?c ?T) @ drop (length ?F - ?c) (rev ?F) = rev ?T"
    using cF by (intro common_prefix_glue) (simp_all add: takeF takeT)
  have "path_resolve cwd [Some p, Some ?r] = Inr u"
  proof (cases "?segs = []")
    case True
    then have "length ?F - ?c = 0" "drop ?c ?T = []" by simp_all
    with glue have "rev ?F = rev ?T" by simp
    then have "?F = ?T" by simp
    then have "path_resolve cwd [Some p] = Inr u"
      using resolve_single [OF assms(1), of p] u by simp
    moreover from True have "?r = []" by simp
    ultimately show ?thesis by (simp add: resolve_skip_empty)
  next
    case False
    then have r_ne: "?r \<noteq> []" using good join_with_eq_Nil [of ?segs "[slash]"] by blast
    obtain x xs where segs: "?segs = x # xs" using False by (cases ?segs) auto
    have "x \<in> set ?segs" unfolding segs by simp
    with good have x: "x \<noteq> []" "slash \<notin> set x" by blast+
    have hd_r: "hd ?r = hd x" unfolding segs using x(1) by (rule join_with_hd)
    have "hd x \<noteq> slash" using x by (cases x) auto
    with hd_r have "hd ?r \<noteq> slash" by simp
    with r_ne have r_rel: "\<not> starts_with_slash ?r"
      by (cases ?r) (simp_all add: starts_with_slash_def)
    have sp: "split_by (\<lambda>c. c = slash) ?r = ?segs"
      using False good by (intro split_join) blast+
    have "foldl (normalize_step False) (rev ?F) ?segs
          = rev (drop ?c ?T) @ drop (length ?F - ?c) (rev ?F)"
      using pF pD by (intro climb_then_descend) simp_all
    with glue have "foldl (normalize_step False) (rev ?F) ?segs = rev ?T" by simp
    then have "path_resolve cwd [Some p, Some ?r] = Inr (slash # join_with [slash] ?T)"
      using resolve_pair [OF assms(1) r_ne r_rel, of p] sp by simp
    with u show ?thesis by simp
  qed
  with rel post show ?thesis by simp
qed

section \<open>Tree path conversion\<close>


lemma resolve_loop_total: "\<exists>rp ab. resolve_loop (map Some xs) acc = Inr (rp, ab)"
proof (induction xs arbitrary: acc)
  case Nil
  have "resolve_loop (map Some []) acc = Inr (acc, False)" by simp
  then show ?case by blast
next
  case (Cons x xs)
  show ?case
  proof (cases "x = []")
    case True
    with Cons [of acc] show ?thesis by (simp add: validateString_def)
  next
    case False
    show ?thesis
    proof (cases "starts_with_slash x")
      case True
      with False have "resolve_loop (map Some (x # xs)) acc = Inr (x @ [slash] @ acc, True)"
        by (simp add: validateString_def)
      then show ?thesis by blast
    next
      case rel: False
      with False Cons [of "x @ [slash] @ acc"] show ?thesis
        by (simp add: validateString_def)
    qed
  qed
qed

lemma path_resolve_total: "\<exists>r. path_resolve cwd (map Some xs) = Inr r"
proof -
  obtain rp ab where "resolve_loop (map Some (rev xs @ [cwd])) [] = Inr (rp, ab)"
    using resolve_loop_total [of "rev xs @ [cwd]" "[]"] by auto
  then show ?thesis by (simp add: path_resolve_def rev_map Let_def)
qed

lemma path_relative_total: "\<exists>r. path_relative cwd (Some p) (Some u) = Inr r"
proof -
  obtain f' where f': "path_resolve cwd [Some p] = Inr f'"
    using path_resolve_total [of cwd "[p]"] by auto
  obtain t' where t': "path_resolve cwd [Some u] = Inr t'"
    using path_resolve_total [of cwd "[u]"] by auto
  show ?thesis by (simp add: path_relative_def validateString_def f' t' Let_def)
qed

lemma absoluteToRelativePath_relative_uri:
  assumes "\<forall>u. uri n = Some u \<longrightarrow> \<not> starts_with_slash u"
  shows "absoluteToRelativePath cwd p (Some n) = Inr None"
  using assms by (cases "uri n") (simp_all add: path_isAbsolute_def validateString_def)

lemma conversion_convert_uris:
  "(\<And>n. n \<in> set (preorder t) \<Longrightarrow> shouldConvertPath (Some n) \<Longrightarrow> w p (Some n) = Inr (f (uri n)))
     \<Longrightarrow> recursivePathConversion_rec w p t = Inr (convert_uris f t)"
  "(\<And>n. n \<in> set (preorder_list l) \<Longrightarrow> shouldConvertPath (Some n) \<Longrightarrow> w p (Some n) = Inr (f (uri n)))
     \<Longrightarrow> recursivePathConversion_loop w p l = Inr (convert_uris_list f l)"
proof (induction t and l rule: preorder_preorder_list.induct)
  case (1 u t n at m ns cs)
  let ?a = "Asset u t n at m ns cs"
  have self: "shouldConvertPath (Some ?a) \<Longrightarrow> w p (Some ?a) = Inr (f u)"
    using "1.prems" [of ?a] by simp
  show ?case
  proof (cases cs)
    case None
    with self show ?thesis by simp
  next
    case (Some l)
    have "recursivePathConversion_loop w p l = Inr (convert_uris_list f l)"
      using Some "1.prems" by (intro "1.IH") simp_all
    with Some self show ?thesis by simp
  qed
next
  case 2
  show ?case by simp
next
  case (3 c l)
  have "recursivePathConversion_rec w p c = Inr (convert_uris f c)"
    using "3.prems" by (intro "3.IH") simp
  moreover have "recursivePathConversion_loop w p l = Inr (convert_uris_list f l)"
    using "3.prems" by (intro "3.IH") simp
  ultimately show ?case by simp
qed

lemma preorder_convert_uris:
  "preorder (convert_uris f t) = map (convert_uris f) (preorder t)"
  "preorder_list (convert_uris_list f l) = map (convert_uris f) (preorder_list l)"
  by (induction t and l rule: preorder_preorder_list.induct) (auto split: option.splits)

lemma convert_uris_fields:
  "atype (convert_uris f n) = atype n"
  "uri (convert_uris f n) = (if shouldConvertPath (Some n) then f (uri n) else uri n)"
  by (cases n; simp)+

text \<open>
  C9. When the FILE, DIRECTORY and FOLDER nodes of a tree carry relative (non-absolute) URIs and
  the project path is not null, \<^verbatim>\<open>recursiveAbsoluteToRelativePath\<close> does not leave those URIs
  alone: the null that the per-node converter returns for a URI that is not absolute is written
  into the \<^verbatim>\<open>uri\<close> of every such node of the copy. The node types are unchanged.
\<close>

theorem recursiveAbsoluteToRelativePath_relative_to_null:
  assumes "\<forall>n\<in>set (preorder t). shouldConvertPath (Some n) \<longrightarrow>
             (\<forall>u. uri n = Some u \<longrightarrow> \<not> starts_with_slash u)"
  shows "recursiveAbsoluteToRelativePath cwd (Some p) (Some t)
           = Inr (Some (convert_uris (\<lambda>u. None) t))
         \<and> (\<forall>n\<in>set (preorder (convert_uris (\<lambda>u. None) t)).
               shouldConvertPath (Some n) \<longrightarrow> uri n = None)
         \<and> map atype (preorder (convert_uris (\<lambda>u. None) t)) = map atype (preorder t)"
proof -
  have "recursivePathConversion_rec (absoluteToRelativePath cwd) (Some p) t
        = Inr (convert_uris (\<lambda>u. None) t)"
    using assms by (intro conversion_convert_uris(1) absoluteToRelativePath_relative_uri) blast
  then have "recursiveAbsoluteToRelativePath cwd (Some p) (Some t)
           = Inr (Some (convert_uris (\<lambda>u. None) t))"
    by (simp add: recursiveAbsoluteToRelativePath_def json_copy_def)
  moreover have "\<forall>n\<in>set (preorder (convert_uris (\<lambda>u. None) t)).
               shouldConvertPath (Some n) \<longrightarrow> uri n = None"
    by (auto simp: preorder_convert_uris convert_uris_fields)
  moreover have "map atype (preorder (convert_uris (\<lambda>u. None) t)) = map atype (preorder t)"
    by (simp add: preorder_convert_uris convert_uris_fields comp_def)
  ultimately show ?thesis by blast
qed

theorem recursiveAbsoluteToRelativePath_relative_to_null_witness:
  "recursiveAbsoluteToRelativePath ''/home/user'' (Some ''/proj'')
     (Some (Asset (Some ''src'') (Some DIRECTORY) None None None None
        (Some [Asset (Some ''src/main.R'') (Some FILE) None None None None None,
               Asset (Some ''https://example.org/data'') (Some URL) None None None None None])))
   = Inr (Some (Asset None (Some DIRECTORY) None None None None
        (Some [Asset None (Some FILE) None None None None None,
               Asset (Some ''https://example.org/data'') (Some URL) None None None None None])))"
  using recursiveAbsoluteToRelativePath_relative_to_null
    [of "Asset (Some ''src'') (Some DIRECTORY) None None None None
        (Some [Asset (Some ''src/main.R'') (Some FILE) None None None None None,
               Asset (Some ''https://example.org/data'') (Some URL) None None None None None])"
        "''/home/user''" "''/proj''"]
  by (simp add: starts_with_slash_def slash_def)


lemma roundtrip_node:
  assumes "starts_with_slash cwd" "normalized_absolute u" "uri n = Some u"
  shows "\<exists>r. absoluteToRelativePath cwd (Some R) (Some n) = Inr (Some r)
           \<and> (\<forall>ty nm at m ns cs.
                  relativeToAbsolutePath cwd (Some R) (Some (Asset (Some r) ty nm at m ns cs))
                  = Inr (Some u))"
proof -
  obtain r where rel: "path_relative cwd (Some R) (Some u) = Inr r"
    and res: "path_resolve cwd [Some R, Some (join_with [posix_sep] (split_by (\<lambda>c. c = path_sep) r))]
              = Inr u"
    using roundtrip_uri [OF assms(1,2), of R] by blast
  have "starts_with_slash u"
    using assms(2) by (auto simp: normalized_absolute_def starts_with_slash_def split: list.splits)
  then have "absoluteToRelativePath cwd (Some R) (Some n)
             = Inr (Some (join_with [posix_sep] (split_by (\<lambda>c. c = path_sep) r)))"
    using assms(3) rel by (simp add: path_isAbsolute_def validateString_def)
  moreover have "relativeToAbsolutePath cwd (Some R)
      (Some (Asset (Some (join_with [posix_sep] (split_by (\<lambda>c. c = path_sep) r))) ty nm at m ns cs))
      = Inr (Some u)" for ty nm at m ns cs
    using res by simp
  ultimately show ?thesis by blast
qed

lemma roundtrip_tree:
  assumes cwd: "starts_with_slash cwd"
  shows "(\<forall>n\<in>set (preorder t). shouldConvertPath (Some n) \<longrightarrow>
            (\<exists>u. uri n = Some u \<and> normalized_absolute u))
         \<Longrightarrow> \<exists>t'. recursivePathConversion_rec (absoluteToRelativePath cwd) (Some R) t = Inr t'
                \<and> recursivePathConversion_rec (relativeToAbsolutePath cwd) (Some R) t' = Inr t"
    and "(\<forall>n\<in>set (preorder_list l). shouldConvertPath (Some n) \<longrightarrow>
            (\<exists>u. uri n = Some u \<and> normalized_absolute u))
         \<Longrightarrow> \<exists>l'. recursivePathConversion_loop (absoluteToRelativePath cwd) (Some R) l = Inr l'
                \<and> recursivePathConversion_loop (relativeToAbsolutePath cwd) (Some R) l' = Inr l"
proof (induction t and l rule: preorder_preorder_list.induct)
  case (1 u t n at m ns cs)
  let ?a = "Asset u t n at m ns cs"
  let ?A = "absoluteToRelativePath cwd" and ?R = "relativeToAbsolutePath cwd"
  have "\<exists>u'. (if shouldConvertPath (Some ?a) then ?A (Some R) (Some ?a) else Inr u) = Inr u'
          \<and> (\<forall>cs'. (if shouldConvertPath (Some (Asset u' t n at m ns cs'))
                       then ?R (Some R) (Some (Asset u' t n at m ns cs')) else Inr u') = Inr u)"
  proof (cases "shouldConvertPath (Some ?a)")
    case True
    with "1.prems" obtain s where s: "u = Some s" "normalized_absolute s" by auto
    have "uri ?a = Some s" using s(1) by simp
    from roundtrip_node [OF cwd s(2) this, of R]
    obtain r where r: "?A (Some R) (Some ?a) = Inr (Some r)"
      "\<And>cs'. ?R (Some R) (Some (Asset (Some r) t n at m ns cs')) = Inr (Some s)"
      by blast
    from True have "\<And>cs'. shouldConvertPath (Some (Asset (Some r) t n at m ns cs'))" by simp
    with True r s(1) show ?thesis
      by (intro exI [of _ "Some r"]) (simp del: absoluteToRelativePath.simps relativeToAbsolutePath.simps)
  next
    case False
    then have "\<And>cs'. \<not> shouldConvertPath (Some (Asset u t n at m ns cs'))" by simp
    with False show ?thesis
      by (intro exI [of _ u]) (simp del: absoluteToRelativePath.simps relativeToAbsolutePath.simps)
  qed
  then obtain u' where fwd: "(if shouldConvertPath (Some ?a) then ?A (Some R) (Some ?a) else Inr u) = Inr u'"
    and bwd: "\<And>cs'. (if shouldConvertPath (Some (Asset u' t n at m ns cs'))
                       then ?R (Some R) (Some (Asset u' t n at m ns cs')) else Inr u') = Inr u"
    by blast
  show ?case
  proof (cases cs)
    case None
    have "recursivePathConversion_rec ?A (Some R) ?a = Inr (Asset u' t n at m ns None)"
      using fwd None by (simp del: shouldConvertPath.simps absoluteToRelativePath.simps relativeToAbsolutePath.simps
          split: if_splits)
    moreover have "recursivePathConversion_rec ?R (Some R) (Asset u' t n at m ns None) = Inr ?a"
      using bwd [of None] None by (simp del: shouldConvertPath.simps absoluteToRelativePath.simps relativeToAbsolutePath.simps
          split: if_splits)
    ultimately show ?thesis by blast
  next
    case (Some l)
    obtain l' where l': "recursivePathConversion_loop ?A (Some R) l = Inr l'"
      "recursivePathConversion_loop ?R (Some R) l' = Inr l"
      using "1.IH" [OF Some] "1.prems" Some by auto
    have "recursivePathConversion_rec ?A (Some R) ?a = Inr (Asset u' t n at m ns (Some l'))"
      using fwd Some l'(1) by (simp del: shouldConvertPath.simps absoluteToRelativePath.simps relativeToAbsolutePath.simps
          split: if_splits)
    moreover have "recursivePathConversion_rec ?R (Some R) (Asset u' t n at m ns (Some l')) = Inr ?a"
      using bwd [of "Some l'"] Some l'(2) by (simp del: shouldConvertPath.simps absoluteToRelativePath.simps relativeToAbsolutePath.simps
          split: if_splits)
    ultimately show ?thesis by blast
  qed
next
  case 2
  show ?case by simp
next
  case (3 c l)
  obtain c' where c': "recursivePathConversion_rec (absoluteToRelativePath cwd) (Some R) c = Inr c'"
    "recursivePathConversion_rec (relativeToAbsolutePath cwd) (Some R) c' = Inr c"
    using "3.IH"(1) "3.prems" by auto
  obtain l' where l': "recursivePathConversion_loop (absoluteToRelativePath cwd) (Some R) l = Inr l'"
    "recursivePathConversion_loop (relativeToAbsolutePath cwd) (Some R) l' = Inr l"
    using "3.IH"(2) "3.prems" by auto
  from c' l' show ?case by simp
qed



lemma conversion_rec_Inr:
  assumes "recursivePathConversion_rec w p (Asset u t n at m ns cs) = Inr t'"
  shows "\<exists>u' cs'. t' = Asset u' t n at m ns cs'
           \<and> (\<not> shouldConvertPath (Some (Asset u t n at m ns cs)) \<longrightarrow> u' = u)
           \<and> (case cs of
                  None \<Rightarrow> cs' = None
                | Some l \<Rightarrow> \<exists>l'. cs' = Some l' \<and> recursivePathConversion_loop w p l = Inr l')"
proof (cases "shouldConvertPath (Some (Asset u t n at m ns cs))")
  case True
  with assms obtain u' where u': "w p (Some (Asset u t n at m ns cs)) = Inr u'"
    by (cases "w p (Some (Asset u t n at m ns cs))") (simp_all del: shouldConvertPath.simps)
  show ?thesis
  proof (cases cs)
    case None
    with assms True u' show ?thesis by (auto simp del: shouldConvertPath.simps)
  next
    case (Some l)
    with assms True u' show ?thesis
      by (cases "recursivePathConversion_loop w p l") (auto simp del: shouldConvertPath.simps)
  qed
next
  case False
  show ?thesis
  proof (cases cs)
    case None
    with assms False show ?thesis by (auto simp del: shouldConvertPath.simps)
  next
    case (Some l)
    with assms False show ?thesis
      by (cases "recursivePathConversion_loop w p l") (auto simp del: shouldConvertPath.simps)
  qed
qed

lemma conversion_loop_Inr:
  assumes "recursivePathConversion_loop w p (c # l) = Inr r"
  shows "\<exists>c' l'. r = c' # l' \<and> recursivePathConversion_rec w p c = Inr c'
           \<and> recursivePathConversion_loop w p l = Inr l'"
  using assms by (auto split: sum.splits)

lemma untouched_view_Asset:
  "untouched_view (Asset u t n at m ns cs)
   = (t, if shouldConvertPath (Some (Asset u t n at m ns cs)) then None else u)"
  by (simp add: untouched_view_def)

lemma shouldConvertPath_type:
  "shouldConvertPath (Some (Asset u' t n at m ns cs')) = shouldConvertPath (Some (Asset u t n at m ns cs))"
  by simp

lemma conversion_untouched:
  "recursivePathConversion_rec w p t = Inr t'
     \<Longrightarrow> map untouched_view (preorder t') = map untouched_view (preorder t)"
  "recursivePathConversion_loop w p l = Inr l'
     \<Longrightarrow> map untouched_view (preorder_list l') = map untouched_view (preorder_list l)"
proof (induction t and l arbitrary: t' and l' rule: preorder_preorder_list.induct)
  case (1 u t n at m ns cs)
  from conversion_rec_Inr [OF "1.prems"]
  obtain u' cs' where t': "t' = Asset u' t n at m ns cs'"
    and keep: "\<not> shouldConvertPath (Some (Asset u t n at m ns cs)) \<longrightarrow> u' = u"
    and kids: "case cs of None \<Rightarrow> cs' = None
               | Some l \<Rightarrow> \<exists>l'. cs' = Some l' \<and> recursivePathConversion_loop w p l = Inr l'"
    by blast
  have head: "untouched_view (Asset u' t n at m ns cs') = untouched_view (Asset u t n at m ns cs)"
    using keep shouldConvertPath_type [of u' t n at m ns cs' u cs]
    by (simp only: untouched_view_Asset) auto
  show ?case
  proof (cases cs)
    case None
    with kids have "cs' = None" by simp
    with None head show ?thesis by (simp add: t' del: shouldConvertPath.simps)
  next
    case (Some l)
    with kids obtain l' where l': "cs' = Some l'" "recursivePathConversion_loop w p l = Inr l'"
      by auto
    have "map untouched_view (preorder_list l') = map untouched_view (preorder_list l)"
      using Some l'(2) by (rule "1.IH")
    with Some l'(1) head show ?thesis by (simp add: t' del: shouldConvertPath.simps)
  qed
next
  case 2
  then show ?case by simp
next
  case (3 c l)
  from conversion_loop_Inr [OF "3.prems"]
  obtain c' r where "l' = c' # r" "recursivePathConversion_rec w p c = Inr c'"
    "recursivePathConversion_loop w p l = Inr r"
    by blast
  with "3.IH" show ?case by simp
qed

lemma url_uris_untouched:
  "map uri (filter (\<lambda>n. atype n = Some URL) xs)
   = map snd (filter (\<lambda>v. fst v = Some URL) (map untouched_view xs))"
  by (induction xs) (simp_all add: untouched_view_def)

lemma atype_untouched: "map atype xs = map fst (map untouched_view xs)"
  by (simp add: untouched_view_def comp_def)

lemma conversion_keeps_urls:
  assumes "recursivePathConversion p (Some t) w = Inr (Some t')"
  shows "map atype (preorder t') = map atype (preorder t) \<and> url_uris t' = url_uris t"
proof -
  have "map untouched_view (preorder t') = map untouched_view (preorder t)"
  proof (cases p)
    case None
    with assms show ?thesis by simp
  next
    case (Some r)
    with assms have "recursivePathConversion_rec w (Some r) t = Inr t'"
      by (simp add: json_copy_def split: sum.splits)
    then show ?thesis by (rule conversion_untouched(1))
  qed
  then show ?thesis
    by (simp only: url_uris_def url_uris_untouched atype_untouched)
qed

text \<open>
  The normal form is no more than the round trip needs: with an absolute working directory,
  \<^verbatim>\<open>path.resolve\<close> returns normalized absolute paths only, and the normalized absolute paths
  are the ones it leaves as they are. A URI that \<^verbatim>\<open>relativeToAbsolutePath\<close> gives back is
  therefore always in normal form.
\<close>


lemma resolve_loop_absolute:
  assumes "starts_with_slash cwd"
  shows "\<exists>rp. resolve_loop (map Some xs @ [Some cwd]) acc = Inr (rp, True)"
proof (induction xs arbitrary: acc)
  case Nil
  have "cwd \<noteq> []" using assms by (auto simp: starts_with_slash_def)
  with assms show ?case by (simp add: validateString_def)
next
  case (Cons x xs)
  show ?case
  proof (cases "x = []")
    case True
    with Cons [of acc] show ?thesis by (simp add: validateString_def)
  next
    case False
    show ?thesis
    proof (cases "starts_with_slash x")
      case True
      with False show ?thesis by (simp add: validateString_def)
    next
      case rel: False
      with False Cons [of "x @ [slash] @ acc"] show ?thesis
        by (simp add: validateString_def)
    qed
  qed
qed

lemma normalized_absolute_join:
  assumes "list_all proper_segment segs"
  shows "normalized_absolute (slash # join_with [slash] segs)"
proof (cases segs)
  case Nil
  then show ?thesis by (simp add: normalized_absolute_def)
next
  case (Cons s ss)
  have "\<forall>s\<in>set segs. slash \<notin> set s"
    using assms by (auto simp: list_all_iff proper_segment_def)
  with Cons have "split_by (\<lambda>c. c = slash) (join_with [slash] segs) = segs"
    by (intro split_join) simp_all
  with assms show ?thesis by (simp add: normalized_absolute_def)
qed

lemma path_resolve_normalized:
  assumes "starts_with_slash cwd" "path_resolve cwd (map Some xs) = Inr u"
  shows "normalized_absolute u"
proof -
  obtain rp where rp: "resolve_loop (map Some (rev xs) @ [Some cwd]) [] = Inr (rp, True)"
    using resolve_loop_absolute [OF assms(1)] by blast
  have "list_all proper_segment
          (rev (foldl (normalize_step False) [] (split_by (\<lambda>c. c = slash) rp)))"
    using normalize_abs_proper [of "[]"] split_by_sep_free [of slash] by simp
  then have "normalized_absolute (slash # normalizeString False rp)"
    unfolding normalizeString_def by (rule normalized_absolute_join)
  with assms(2) rp show ?thesis by (simp add: path_resolve_def rev_map)
qed

lemma normalized_absolute_resolve_fixed:
  assumes "starts_with_slash cwd"
  shows "normalized_absolute u \<longleftrightarrow> path_resolve cwd [Some u] = Inr u"
proof
  assume u: "normalized_absolute u"
  show "path_resolve cwd [Some u] = Inr u"
    using resolve_single [OF assms, of u] abs_segments_normalized [OF u, of cwd]
      normalized_absolute_segments(1) [OF u] by simp
next
  assume "path_resolve cwd [Some u] = Inr u"
  then show "normalized_absolute u"
    using path_resolve_normalized [OF assms, of "[u]" u] by simp
qed

lemma relativeToAbsolutePath_normalized:
  assumes "starts_with_slash cwd" "relativeToAbsolutePath cwd (Some R) (Some n) = Inr (Some u)"
  shows "normalized_absolute u"
proof (cases "uri n")
  case None
  with assms(2) show ?thesis by simp
next
  case (Some r)
  with assms(2) have "path_resolve cwd (map Some [R, r]) = Inr u"
    by (simp split: sum.splits)
  with assms(1) show ?thesis by (rule path_resolve_normalized)
qed


lemma conversion_total:
  assumes "\<And>n. \<exists>r. w p (Some n) = Inr r"
  shows "\<exists>t'. recursivePathConversion_rec w p t = Inr t'"
    and "\<exists>l'. recursivePathConversion_loop w p l = Inr l'"
proof (induction t and l rule: preorder_preorder_list.induct)
  case (1 u t n at m ns cs)
  obtain u' where u': "(if shouldConvertPath (Some (Asset u t n at m ns cs))
                        then w p (Some (Asset u t n at m ns cs)) else Inr u) = Inr u'"
  proof (cases "shouldConvertPath (Some (Asset u t n at m ns cs))")
    case True
    obtain r where "w p (Some (Asset u t n at m ns cs)) = Inr r"
      using assms [of "Asset u t n at m ns cs"] by blast
    with True that [of r] show ?thesis by (simp del: shouldConvertPath.simps)
  next
    case False
    with that [of u] show ?thesis by (simp del: shouldConvertPath.simps)
  qed
  show ?case
  proof (cases cs)
    case None
    with u' show ?thesis by (auto simp del: shouldConvertPath.simps split: if_splits)
  next
    case (Some l)
    with "1.IH" obtain l' where "recursivePathConversion_loop w p l = Inr l'" by blast
    with Some u' show ?thesis by (auto simp del: shouldConvertPath.simps split: if_splits)
  qed
next
  case 2
  show ?case by simp
next
  case (3 c l)
  then obtain c' l' where "recursivePathConversion_rec w p c = Inr c'"
    "recursivePathConversion_loop w p l = Inr l'" by blast
  then show ?case by simp
qed

lemma absoluteToRelativePath_total: "\<exists>r. absoluteToRelativePath cwd (Some R) (Some n) = Inr r"
proof (cases "uri n")
  case None
  then show ?thesis by simp
next
  case (Some u)
  obtain r where "path_relative cwd (Some R) (Some u) = Inr r"
    using path_relative_total by blast
  with Some show ?thesis by (simp add: path_isAbsolute_def validateString_def)
qed

lemma relativeToAbsolutePath_total: "\<exists>r. relativeToAbsolutePath cwd (Some R) (Some n) = Inr r"
proof (cases "uri n")
  case None
  then show ?thesis by simp
next
  case (Some u)
  obtain r where "path_resolve cwd [Some R, Some u] = Inr r"
    using path_resolve_total [of cwd "[R, u]"] by auto
  with Some show ?thesis by simp
qed

lemma recursivePathConversion_total:
  assumes "\<And>R n. \<exists>r. w (Some R) (Some n) = Inr r"
  shows "\<exists>t'. recursivePathConversion p (Some t) w = Inr (Some t')"
proof (cases p)
  case None
  then show ?thesis by simp
next
  case (Some R)
  obtain t' where "recursivePathConversion_rec w (Some R) t = Inr t'"
    using conversion_total(1) [of w "Some R" t] assms by blast
  with Some show ?thesis by (simp add: json_copy_def)
qed

text \<open>
  C1, amended. With POSIX paths and an absolute working directory: for every asset tree whose
  FILE, DIRECTORY and FOLDER nodes carry absolute URIs in normal form (a slash followed by
  segments separated by single slashes, none of them empty, \<^verbatim>\<open>.\<close> or \<^verbatim>\<open>..\<close>, so no trailing
  slash) and every project root \<open>R\<close>, \<^verbatim>\<open>recursiveAbsoluteToRelativePath\<close> with \<open>R\<close> followed by
  \<^verbatim>\<open>recursiveRelativeToAbsolutePath\<close> with the same \<open>R\<close> gives back the original tree, so the
  original URI on every node. For every tree and every project path, null included, either
  conversion returns a tree with the same node types and the same uri on every URL-typed node.
\<close>

theorem path_conversion_roundtrip:
  "(starts_with_slash cwd
      \<and> (\<forall>n\<in>set (preorder t). shouldConvertPath (Some n) \<longrightarrow>
            (\<exists>u. uri n = Some u \<and> normalized_absolute u))
      \<longrightarrow> (\<exists>t'. recursiveAbsoluteToRelativePath cwd (Some R) (Some t) = Inr (Some t')
                \<and> recursiveRelativeToAbsolutePath cwd (Some R) (Some t') = Inr (Some t)))
   \<and> (\<exists>s'. recursiveAbsoluteToRelativePath cwd p (Some s) = Inr (Some s')
           \<and> map atype (preorder s') = map atype (preorder s) \<and> url_uris s' = url_uris s)
   \<and> (\<exists>s'. recursiveRelativeToAbsolutePath cwd p (Some s) = Inr (Some s')
           \<and> map atype (preorder s') = map atype (preorder s) \<and> url_uris s' = url_uris s)"
proof -
  have "\<exists>t'. recursiveAbsoluteToRelativePath cwd (Some R) (Some t) = Inr (Some t')
                \<and> recursiveRelativeToAbsolutePath cwd (Some R) (Some t') = Inr (Some t)"
    if cwd: "starts_with_slash cwd"
      and ok: "\<forall>n\<in>set (preorder t). shouldConvertPath (Some n) \<longrightarrow>
            (\<exists>u. uri n = Some u \<and> normalized_absolute u)"
  proof -
    obtain t' where "recursivePathConversion_rec (absoluteToRelativePath cwd) (Some R) t = Inr t'"
      "recursivePathConversion_rec (relativeToAbsolutePath cwd) (Some R) t' = Inr t"
      using roundtrip_tree(1) [OF cwd, of t R] ok by blast
    then show ?thesis
      by (simp add: recursiveAbsoluteToRelativePath_def recursiveRelativeToAbsolutePath_def
          json_copy_def)
  qed
  moreover have "\<exists>s'. recursiveAbsoluteToRelativePath cwd p (Some s) = Inr (Some s')
           \<and> map atype (preorder s') = map atype (preorder s) \<and> url_uris s' = url_uris s"
    unfolding recursiveAbsoluteToRelativePath_def
    using recursivePathConversion_total [of "absoluteToRelativePath cwd" p s]
      absoluteToRelativePath_total conversion_keeps_urls by blast
  moreover have "\<exists>s'. recursiveRelativeToAbsolutePath cwd p (Some s) = Inr (Some s')
           \<and> map atype (preorder s') = map atype (preorder s) \<and> url_uris s' = url_uris s"
    unfolding recursiveRelativeToAbsolutePath_def
    using recursivePathConversion_total [of "relativeToAbsolutePath cwd" p s]
      relativeToAbsolutePath_total conversion_keeps_urls by blast
  ultimately show ?thesis by blast
qed

theorem path_conversion_roundtrip_witness:
  "recursiveAbsoluteToRelativePath ''/home/user'' (Some ''/proj'')
     (Some (Asset (Some ''/proj'') (Some DIRECTORY) None None None None
        (Some [Asset (Some ''/proj/src/main.R'') (Some FILE) None None None None None,
               Asset (Some ''https://example.org/data'') (Some URL) None None None None None])))
   = Inr (Some (Asset (Some []) (Some DIRECTORY) None None None None
        (Some [Asset (Some ''src/main.R'') (Some FILE) None None None None None,
               Asset (Some ''https://example.org/data'') (Some URL) None None None None None])))
   \<and> recursiveRelativeToAbsolutePath ''/home/user'' (Some ''/proj'')
     (Some (Asset (Some []) (Some DIRECTORY) None None None None
        (Some [Asset (Some ''src/main.R'') (Some FILE) None None None None None,
               Asset (Some ''https://example.org/data'') (Some URL) None None None None None])))
   = Inr (Some (Asset (Some ''/proj'') (Some DIRECTORY) None None None None
        (Some [Asset (Some ''/proj/src/main.R'') (Some FILE) None None None None None,
               Asset (Some ''https://example.org/data'') (Some URL) None None None None None])))"
proof -
  let ?T = "Asset (Some ''/proj'') (Some DIRECTORY) None None None None
        (Some [Asset (Some ''/proj/src/main.R'') (Some FILE) None None None None None,
               Asset (Some ''https://example.org/data'') (Some URL) None None None None None])"
  let ?T1 = "Asset (Some []) (Some DIRECTORY) None None None None
        (Some [Asset (Some ''src/main.R'') (Some FILE) None None None None None,
               Asset (Some ''https://example.org/data'') (Some URL) None None None None None])"
  have abs: "normalized_absolute ''/proj''" "normalized_absolute ''/proj/src/main.R''"
    by code_simp+
  have hyp: "starts_with_slash ''/home/user''
      \<and> (\<forall>n\<in>set (preorder ?T). shouldConvertPath (Some n) \<longrightarrow>
            (\<exists>u. uri n = Some u \<and> normalized_absolute u))"
    using abs by (simp add: starts_with_slash_def slash_def)
  have fwd: "recursiveAbsoluteToRelativePath ''/home/user'' (Some ''/proj'') (Some ?T)
             = Inr (Some ?T1)"
    by code_simp
  from path_conversion_roundtrip [of "''/home/user''" ?T "''/proj''"] hyp
  obtain t' where "recursiveAbsoluteToRelativePath ''/home/user'' (Some ''/proj'') (Some ?T)
                   = Inr (Some t')"
    and "recursiveRelativeToAbsolutePath ''/home/user'' (Some ''/proj'') (Some t') = Inr (Some ?T)"
    by blast
  with fwd show ?thesis by simp
qed

text \<open>
  The round trip does not give back every absolute URI under the root: one with a trailing
  slash comes back without it, since \<^verbatim>\<open>path.relative\<close> and \<^verbatim>\<open>path.resolve\<close> normalize.
\<close>

theorem path_conversion_roundtrip_counterexample:
  "recursiveAbsoluteToRelativePath ''/home/user'' (Some ''/proj'')
     (Some (Asset (Some ''/proj/data/'') (Some DIRECTORY) None None None None None))
   = Inr (Some (Asset (Some ''data'') (Some DIRECTORY) None None None None None))
   \<and> recursiveRelativeToAbsolutePath ''/home/user'' (Some ''/proj'')
     (Some (Asset (Some ''data'') (Some DIRECTORY) None None None None None))
   = Inr (Some (Asset (Some ''/proj/data'') (Some DIRECTORY) None None None None None))
   \<and> Some ''/proj/data'' \<noteq> Some ''/proj/data/''"
  by code_simp

section \<open>Thrown errors\<close>

text \<open>
  C4. Every operation, the flat-array conversions included, is to return a neutral value for
  every input and never throw, also for a null project root. \<^verbatim>\<open>_convertPathForArray\<close> has no
  check of the project root (\<^verbatim>\<open>recursivePathConversion\<close> has one), so a null project root
  reaches \<^verbatim>\<open>path.resolve\<close> or \<^verbatim>\<open>path.relative\<close>, which throw a \<^verbatim>\<open>TypeError\<close> for an argument
  that is not a string. The tree variant returns its input on the same project root.
\<close>

theorem convertPathForArray_null_root_throws:
  "relativeToAbsolutePathForArray ''/home/user'' None
     (Some [Some (Asset (Some ''a.txt'') (Some FILE) None None None None None)]) = Inl TypeError
   \<and> absoluteToRelativePathForArray ''/home/user'' None
     (Some [Some (Asset (Some ''/proj/a.txt'') (Some FILE) None None None None None)]) = Inl TypeError
   \<and> recursiveRelativeToAbsolutePath ''/home/user'' None
     (Some (Asset (Some ''a.txt'') (Some FILE) None None None None None))
     = Inr (Some (Asset (Some ''a.txt'') (Some FILE) None None None None None))"
  by code_simp

section \<open>The conversion on the object store\<close>



lemma length_layout:
  "length (layout b t) = Suc (descendants t)"
  "length (layout_list b l) = descendants_list l"
  by (induction t and l arbitrary: b and b rule: height_height_list.induct)
    (simp_all split: option.splits)

lemma parse_layout:
  "json_parse t h = (length h + descendants t, h @ layout (length h) t)"
  "json_parse_list l h = (roots (length h) l, h @ layout_list (length h) l)"
proof (induction t and l arbitrary: h and h rule: height_height_list.induct)
  case (1 u t n at m ns cs)
  then show ?case by (cases cs) (simp_all add: length_layout)
next
  case 2
  show ?case by simp
next
  case (3 c l)
  then show ?case by (simp add: length_layout)
qed

lemma stringify_represents:
  "represents_above b h a t \<Longrightarrow> height t \<le> k \<Longrightarrow> json_stringify k h a = Inr t"
  "represents_above_list b h as l \<Longrightarrow> height_list l \<le> k \<Longrightarrow> json_stringify_list k h as = Inr l"
proof (induction t and l arbitrary: a k and as k rule: height_height_list.induct)
  case (1 u t n at m ns cs)
  from "1.prems"(2) obtain k' where k: "k = Suc k'" by (cases k) auto
  show ?case
  proof (cases cs)
    case None
    with "1.prems" show ?thesis by (simp add: k)
  next
    case (Some l)
    with "1.prems"(1) obtain as where as: "o_children (h ! a) = Some as"
      "represents_above_list b h as l"
      by (auto split: option.splits)
    have "json_stringify_list k' h as = Inr l"
      using Some as(2) "1.prems"(2) by (intro "1.IH") (simp_all add: k)
    with "1.prems"(1) Some as(1) show ?thesis by (simp add: k)
  qed
next
  case 2
  then show ?case by (cases as) simp_all
next
  case (3 c l)
  from "3.prems"(1) obtain a as' where as: "as = a # as'" by (cases as) auto
  with "3.prems" have "json_stringify k h a = Inr c" "json_stringify_list k h as' = Inr l"
    by (auto intro: "3.IH")
  with as show ?case by simp
qed

lemma represents_above_append:
  "represents_above b h a t \<Longrightarrow> represents_above b (h @ ext) a t"
  "represents_above_list b h as l \<Longrightarrow> represents_above_list b (h @ ext) as l"
proof (induction t and l arbitrary: a and as rule: height_height_list.induct)
  case (1 u t n at m ns cs)
  then show ?case
    by (cases cs) (auto simp: nth_append split: option.splits)
next
  case 2
  then show ?case by (cases as) simp_all
next
  case (3 c l)
  then show ?case by (cases as) simp_all
qed


lemma conversion_rec_worker:
  assumes "recursivePathConversion_rec w p (Asset u t n at m ns cs) = Inr t'"
  shows "\<exists>u'. (if shouldConvertPath (Some (Asset u t n at m ns cs))
               then w p (Some (Asset u t n at m ns cs)) else Inr u) = Inr u'
              \<and> uri t' = u'"
proof (cases "if shouldConvertPath (Some (Asset u t n at m ns cs))
              then w p (Some (Asset u t n at m ns cs)) else Inr u")
  case (Inl e)
  with assms show ?thesis by (simp del: shouldConvertPath.simps)
next
  case (Inr u')
  with assms have "uri t' = u'"
    by (cases cs; cases "recursivePathConversion_loop w p (the cs)")
      (auto simp del: shouldConvertPath.simps)
  with Inr show ?thesis by blast
qed

lemma conversion_descendants:
  "recursivePathConversion_rec w p t = Inr t' \<Longrightarrow> descendants t' = descendants t"
  "recursivePathConversion_loop w p l = Inr l' \<Longrightarrow>
     descendants_list l' = descendants_list l \<and> roots b l' = roots b l"
proof (induction t and l arbitrary: t' and l' b rule: height_height_list.induct)
  case (1 u t n at m ns cs)
  from conversion_rec_Inr [OF "1.prems"]
  obtain u' cs' where t': "t' = Asset u' t n at m ns cs'"
    and kids: "case cs of None \<Rightarrow> cs' = None
               | Some l \<Rightarrow> \<exists>l'. cs' = Some l' \<and> recursivePathConversion_loop w p l = Inr l'"
    by blast
  show ?case
  proof (cases cs)
    case None
    with kids t' show ?thesis by simp
  next
    case (Some l)
    with kids obtain l' where l': "cs' = Some l'" "recursivePathConversion_loop w p l = Inr l'"
      by auto
    from "1.IH" [OF Some l'(2)] have "descendants_list l' = descendants_list l" by simp
    with Some l'(1) t' show ?thesis by simp
  qed
next
  case 2
  then show ?case by simp
next
  case (3 c l)
  from conversion_loop_Inr [OF "3.prems"]
  obtain c' r where r: "l' = c' # r" "recursivePathConversion_rec w p c = Inr c'"
    "recursivePathConversion_loop w p l = Inr r"
    by blast
  have "descendants c' = descendants c" using r(2) by (rule "3.IH"(1))
  moreover have "descendants_list r = descendants_list l
      \<and> roots (Suc (b + descendants c)) r = roots (Suc (b + descendants c)) l"
    using r(3) by (rule "3.IH"(2))
  ultimately show ?case by (simp add: r(1))
qed

lemma represents_layout:
  "b' \<le> length pre \<Longrightarrow>
     represents_above b' (pre @ layout (length pre) t @ post) (length pre + descendants t) t"
  "b' \<le> length pre \<Longrightarrow>
     represents_above_list b' (pre @ layout_list (length pre) l @ post) (roots (length pre) l) l"
proof (induction t and l arbitrary: pre post and pre post rule: height_height_list.induct)
  case (1 u t n at m ns cs)
  show ?case
  proof (cases cs)
    case None
    with "1.prems" show ?thesis by simp
  next
    case (Some l)
    let ?ob = "\<lparr>o_uri = u, o_type = t, o_name = n, o_attributes = at, o_metadata = m,
               o_notes = ns, o_children = Some (roots (length pre) l)\<rparr>"
    define ys where "ys = layout_list (length pre) l"
    have len: "length ys = descendants_list l"
      by (simp add: ys_def length_layout)
    have nth: "(pre @ ys @ ?ob # post) ! (length pre + descendants_list l) = ?ob"
      using len by (simp add: nth_append)
    have kids: "represents_above_list b' (pre @ ys @ ?ob # post) (roots (length pre) l) l"
      unfolding ys_def using Some "1.prems" by (rule "1.IH")
    have "represents_above b' (pre @ (ys @ [?ob]) @ post) (length pre + descendants_list l)
            (Asset u t n at m ns (Some l))"
      using kids nth len "1.prems" by simp
    then show ?thesis by (simp add: Some ys_def)
  qed
next
  case 2
  show ?case by simp
next
  case (3 c l)
  have first: "represents_above b' (pre @ layout (length pre) c
                 @ (layout_list (Suc (length pre + descendants c)) l @ post))
                 (length pre + descendants c) c"
    using "3.prems" by (rule "3.IH"(1))
  have "b' \<le> length (pre @ layout (length pre) c)" using "3.prems" by simp
  from "3.IH"(2) [OF this, of post]
  have rest: "represents_above_list b' ((pre @ layout (length pre) c)
                 @ layout_list (Suc (length pre + descendants c)) l @ post)
                 (roots (Suc (length pre + descendants c)) l) l"
    by (simp add: length_layout)
  from first rest show ?case by simp
qed


lemma object_view_should:
  "shouldConvertPath (Some (object_view ob)) =
   (o_type ob = Some FILE \<or> o_type ob = Some DIRECTORY \<or> o_type ob = Some FOLDER)"
  by (simp add: object_view_def)

lemma conversion_at_step:
  assumes "a < length h"
    and "(if shouldConvertPath (Some (object_view (h ! a)))
          then w p (Some (object_view (h ! a))) else Inr (o_uri (h ! a))) = Inr u'"
  shows "recursivePathConversion_at (Suc k) w p a h =
           (case o_children (h ! a) of
              None \<Rightarrow> Inr (h[a := (h ! a)\<lparr>o_uri := u'\<rparr>])
            | Some cs \<Rightarrow> recursivePathConversion_at_loop k w p cs (h[a := (h ! a)\<lparr>o_uri := u'\<rparr>]))"
  by (simp only: recursivePathConversion_at.simps assms if_True sum.case)

lemma conversion_at_layout:
  assumes dep: "\<And>x y. uri x = uri y \<Longrightarrow> w p (Some x) = w p (Some y)"
  shows "recursivePathConversion_rec w p t = Inr t' \<Longrightarrow> height t \<le> k \<Longrightarrow>
           recursivePathConversion_at k w p (length pre + descendants t)
             (pre @ layout (length pre) t @ post)
           = Inr (pre @ layout (length pre) t' @ post)"
    and "recursivePathConversion_loop w p l = Inr l' \<Longrightarrow> height_list l \<le> k \<Longrightarrow>
           recursivePathConversion_at_loop k w p (roots (length pre) l)
             (pre @ layout_list (length pre) l @ post)
           = Inr (pre @ layout_list (length pre) l' @ post)"
proof (induction t and l arbitrary: t' k pre post and l' k pre post
       rule: height_height_list.induct)
  case (1 u t n at m ns cs)
  let ?node = "Asset u t n at m ns cs"
  from "1.prems"(2) obtain k' where k: "k = Suc k'" by (cases k) auto
  from conversion_rec_Inr [OF "1.prems"(1)]
  obtain u' cs' where t': "t' = Asset u' t n at m ns cs'"
    and kids: "case cs of None \<Rightarrow> cs' = None
               | Some l \<Rightarrow> \<exists>l'. cs' = Some l' \<and> recursivePathConversion_loop w p l = Inr l'"
    by blast
  from conversion_rec_worker [OF "1.prems"(1)] t'
  have worker: "(if shouldConvertPath (Some ?node) then w p (Some ?node) else Inr u) = Inr u'"
    by simp
  have view: "(if shouldConvertPath (Some (object_view ob)) then w p (Some (object_view ob))
               else Inr (o_uri ob)) = Inr u'"
    if "o_uri ob = u" "o_type ob = t" for ob
  proof -
    have "uri (object_view ob) = uri ?node" using that by (simp add: object_view_def)
    then have "w p (Some (object_view ob)) = w p (Some ?node)" by (rule dep)
    moreover have "shouldConvertPath (Some (object_view ob)) = shouldConvertPath (Some ?node)"
      using that by (simp add: object_view_def)
    ultimately show ?thesis using worker that
      by (simp del: shouldConvertPath.simps split: if_splits)
  qed
  show ?case
  proof (cases cs)
    case None
    let ?ob = "\<lparr>o_uri = u, o_type = t, o_name = n, o_attributes = at, o_metadata = m,
               o_notes = ns, o_children = None\<rparr>"
    let ?h = "pre @ ?ob # post"
    from kids None have cs': "cs' = None" by simp
    have lt: "length pre < length ?h" by simp
    have nth: "?h ! length pre = ?ob" by simp
    have w: "(if shouldConvertPath (Some (object_view (?h ! length pre)))
              then w p (Some (object_view (?h ! length pre)))
              else Inr (o_uri (?h ! length pre))) = Inr u'"
      unfolding nth by (rule view) simp_all
    have "recursivePathConversion_at (Suc k') w p (length pre) ?h
          = Inr (pre @ ?ob\<lparr>o_uri := u'\<rparr> # post)"
      unfolding conversion_at_step [where w = w and p = p, OF lt w] nth by simp
    then show ?thesis by (simp add: None cs' t' k)
  next
    case (Some l)
    let ?ob = "\<lparr>o_uri = u, o_type = t, o_name = n, o_attributes = at, o_metadata = m,
               o_notes = ns, o_children = Some (roots (length pre) l)\<rparr>"
    from kids Some obtain l' where l': "cs' = Some l'"
      "recursivePathConversion_loop w p l = Inr l'"
      by auto
    have same_roots: "roots (length pre) l' = roots (length pre) l"
      using conversion_descendants(2) [OF l'(2)] by blast
    define ys where "ys = layout_list (length pre) l"
    let ?h = "pre @ ys @ ?ob # post"
    let ?a = "length pre + descendants_list l"
    have len: "length ys = descendants_list l"
      by (simp add: ys_def length_layout)
    have lt: "?a < length ?h" using len by simp
    have nth: "?h ! ?a = ?ob"
      using len by (simp add: nth_append)
    have upd: "?h[?a := ?ob\<lparr>o_uri := u'\<rparr>] = pre @ ys @ ?ob\<lparr>o_uri := u'\<rparr> # post"
      using len by (simp add: list_update_append)
    have w: "(if shouldConvertPath (Some (object_view (?h ! ?a)))
              then w p (Some (object_view (?h ! ?a)))
              else Inr (o_uri (?h ! ?a))) = Inr u'"
      unfolding nth by (rule view) simp_all
    have "height_list l \<le> k'" using "1.prems"(2) Some by (simp add: k)
    with "1.IH" [OF Some l'(2), of k' pre "?ob\<lparr>o_uri := u'\<rparr> # post"]
    have loop: "recursivePathConversion_at_loop k' w p (roots (length pre) l)
                  (pre @ ys @ ?ob\<lparr>o_uri := u'\<rparr> # post)
                = Inr (pre @ layout_list (length pre) l' @ ?ob\<lparr>o_uri := u'\<rparr> # post)"
      by (simp add: ys_def)
    have "recursivePathConversion_at (Suc k') w p ?a ?h
          = Inr (pre @ layout_list (length pre) l' @ ?ob\<lparr>o_uri := u'\<rparr> # post)"
      unfolding conversion_at_step [where w = w and p = p, OF lt w] nth upd using loop by simp
    then show ?thesis by (simp add: Some l'(1) t' k ys_def same_roots)
  qed
next
  case 2
  then show ?case by simp
next
  case (3 c l)
  from conversion_loop_Inr [OF "3.prems"(1)]
  obtain c' r where r: "l' = c' # r" "recursivePathConversion_rec w p c = Inr c'"
    "recursivePathConversion_loop w p l = Inr r"
    by blast
  have hc: "height c \<le> k" and hl: "height_list l \<le> k" using "3.prems"(2) by simp_all
  have dc: "descendants c' = descendants c" using r(2) by (rule conversion_descendants(1))
  let ?b2 = "Suc (length pre + descendants c)"
  from "3.IH"(1) [OF r(2) hc, of pre "layout_list ?b2 l @ post"]
  have first: "recursivePathConversion_at k w p (length pre + descendants c)
                 (pre @ layout (length pre) c @ layout_list ?b2 l @ post)
               = Inr (pre @ layout (length pre) c' @ layout_list ?b2 l @ post)" .
  have len2: "length (pre @ layout (length pre) c') = ?b2"
    by (simp add: length_layout dc)
  from "3.IH"(2) [OF r(3) hl, of "pre @ layout (length pre) c'" post]
  have rest: "recursivePathConversion_at_loop k w p (roots ?b2 l)
                (pre @ layout (length pre) c' @ layout_list ?b2 l @ post)
              = Inr (pre @ layout (length pre) c' @ layout_list ?b2 r @ post)"
    by (simp add: len2 del: length_append)
  from first rest show ?case by (simp add: r(1) dc)
qed


lemma store_conversion:
  assumes dep: "\<And>x y. uri x = uri y \<Longrightarrow> w (Some p) (Some x) = w (Some p) (Some y)"
    and rep: "represents_above 0 h a t"
    and fuel: "height t \<le> fuel"
    and pure: "recursivePathConversion (Some p) (Some t) w = Inr (Some t')"
  shows "recursivePathConversion_store fuel (Some p) (Some a) w h
         = Inr (Some (length h + descendants t), h @ layout (length h) t')"
proof -
  have str: "json_stringify fuel h a = Inr t"
    using rep fuel by (rule stringify_represents(1))
  have rec: "recursivePathConversion_rec w (Some p) t = Inr t'"
    using pure by (simp add: json_copy_def split: sum.splits)
  have "recursivePathConversion_at fuel w (Some p) (length h + descendants t)
          (h @ layout (length h) t @ [])
        = Inr (h @ layout (length h) t' @ [])"
    using dep rec fuel by (rule conversion_at_layout(1))
  then show ?thesis by (simp add: str parse_layout)
qed

lemma store_conversion_frame:
  assumes dep: "\<And>x y. uri x = uri y \<Longrightarrow> w (Some p) (Some x) = w (Some p) (Some y)"
    and rep: "represents_above 0 h a t"
    and fuel: "height t \<le> fuel"
    and pure: "recursivePathConversion (Some p) (Some t) w = Inr (Some t')"
  shows "\<exists>c h'. recursivePathConversion_store fuel (Some p) (Some a) w h = Inr (Some c, h')
           \<and> take (length h) h' = h \<and> represents_above 0 h' a t
           \<and> represents_above (length h) h' c t'"
proof -
  have rec: "recursivePathConversion_rec w (Some p) t = Inr t'"
    using pure by (simp add: json_copy_def split: sum.splits)
  have "represents_above (length h) (h @ layout (length h) t' @ []) (length h + descendants t') t'"
    by (rule represents_layout(1)) simp
  moreover have "descendants t' = descendants t"
    using rec by (rule conversion_descendants(1))
  moreover have "represents_above 0 (h @ layout (length h) t') a t"
    using rep by (rule represents_above_append(1))
  ultimately show ?thesis
    using store_conversion [OF dep rep fuel pure] by simp
qed

lemma absoluteToRelativePath_uri_only:
  "uri x = uri y \<Longrightarrow> absoluteToRelativePath cwd p (Some x) = absoluteToRelativePath cwd p (Some y)"
  by simp

lemma relativeToAbsolutePath_uri_only:
  "uri x = uri y \<Longrightarrow> relativeToAbsolutePath cwd p (Some x) = relativeToAbsolutePath cwd p (Some y)"
  by simp

text \<open>
  C5. \<^verbatim>\<open>recursivePathConversion\<close>, and with it \<^verbatim>\<open>recursiveRelativeToAbsolutePath\<close> and
  \<^verbatim>\<open>recursiveAbsoluteToRelativePath\<close>, leaves its input tree as it was. When the store holds the
  tree \<open>t\<close> at address \<open>a\<close> and the call stack allows the depth of \<open>t\<close>, the call returns; every
  object that existed before the call is unchanged afterwards, so the input still holds \<open>t\<close>;
  and the returned reference leads to objects that are all new, which hold the converted value
  of \<open>t\<close>. With an absent project path or tree, the call returns the reference it was given
  and writes nothing.
\<close>

theorem recursivePathConversion_leaves_input_unchanged:
  "((\<forall>x y. uri x = uri y \<longrightarrow> w (Some p) (Some x) = w (Some p) (Some y))
      \<and> represents_above 0 h a t \<and> height t \<le> fuel
      \<and> recursivePathConversion (Some p) (Some t) w = Inr (Some t')
    \<longrightarrow> (\<exists>c h'. recursivePathConversion_store fuel (Some p) (Some a) w h = Inr (Some c, h')
           \<and> take (length h) h' = h \<and> represents_above 0 h' a t
           \<and> represents_above (length h) h' c t'))
   \<and> (represents_above 0 h a t \<and> height t \<le> fuel
    \<longrightarrow> (\<exists>c h' r. recursiveAbsoluteToRelativePath_store fuel cwd (Some p) (Some a) h = Inr (Some c, h')
           \<and> take (length h) h' = h \<and> represents_above 0 h' a t
           \<and> recursiveAbsoluteToRelativePath cwd (Some p) (Some t) = Inr (Some r)
           \<and> represents_above (length h) h' c r)
      \<and> (\<exists>c h' r. recursiveRelativeToAbsolutePath_store fuel cwd (Some p) (Some a) h = Inr (Some c, h')
           \<and> take (length h) h' = h \<and> represents_above 0 h' a t
           \<and> recursiveRelativeToAbsolutePath cwd (Some p) (Some t) = Inr (Some r)
           \<and> represents_above (length h) h' c r))
   \<and> recursivePathConversion_store fuel None (Some a) w h = Inr (Some a, h)
   \<and> recursivePathConversion_store fuel q None w h = Inr (None, h)"
proof -
  have general: "\<exists>c h'. recursivePathConversion_store fuel (Some p) (Some a) w h = Inr (Some c, h')
           \<and> take (length h) h' = h \<and> represents_above 0 h' a t
           \<and> represents_above (length h) h' c t'"
    if "\<forall>x y. uri x = uri y \<longrightarrow> w (Some p) (Some x) = w (Some p) (Some y)"
      and "represents_above 0 h a t" and "height t \<le> fuel"
      and "recursivePathConversion (Some p) (Some t) w = Inr (Some t')"
    for w t'
    using that by (intro store_conversion_frame) blast+
  have a2r: "\<exists>c h' r. recursiveAbsoluteToRelativePath_store fuel cwd (Some p) (Some a) h = Inr (Some c, h')
           \<and> take (length h) h' = h \<and> represents_above 0 h' a t
           \<and> recursiveAbsoluteToRelativePath cwd (Some p) (Some t) = Inr (Some r)
           \<and> represents_above (length h) h' c r"
    if rep: "represents_above 0 h a t" and fuel: "height t \<le> fuel"
  proof -
    obtain r where r: "recursivePathConversion (Some p) (Some t) (absoluteToRelativePath cwd) = Inr (Some r)"
      using recursivePathConversion_total [of "absoluteToRelativePath cwd" "Some p" t]
        absoluteToRelativePath_total by blast
    from store_conversion_frame [OF absoluteToRelativePath_uri_only rep fuel r]
    show ?thesis
      unfolding recursiveAbsoluteToRelativePath_store_def recursiveAbsoluteToRelativePath_def
      using r by blast
  qed
  have r2a: "\<exists>c h' r. recursiveRelativeToAbsolutePath_store fuel cwd (Some p) (Some a) h = Inr (Some c, h')
           \<and> take (length h) h' = h \<and> represents_above 0 h' a t
           \<and> recursiveRelativeToAbsolutePath cwd (Some p) (Some t) = Inr (Some r)
           \<and> represents_above (length h) h' c r"
    if rep: "represents_above 0 h a t" and fuel: "height t \<le> fuel"
  proof -
    obtain r where r: "recursivePathConversion (Some p) (Some t) (relativeToAbsolutePath cwd) = Inr (Some r)"
      using recursivePathConversion_total [of "relativeToAbsolutePath cwd" "Some p" t]
        relativeToAbsolutePath_total by blast
    from store_conversion_frame [OF relativeToAbsolutePath_uri_only rep fuel r]
    show ?thesis
      unfolding recursiveRelativeToAbsolutePath_store_def recursiveRelativeToAbsolutePath_def
      using r by blast
  qed
  have null: "recursivePathConversion_store fuel None (Some a) w h = Inr (Some a, h)"
    "recursivePathConversion_store fuel q None w h = Inr (None, h)"
    by simp_all
  from general [of w t'] a2r r2a null show ?thesis by blast
qed

theorem recursivePathConversion_leaves_input_unchanged_witness:
  "recursiveAbsoluteToRelativePath_store 2 ''/home/user'' (Some ''/proj'') (Some 1)
     [\<lparr>o_uri = Some ''/proj/a.R'', o_type = Some FILE, o_name = None, o_attributes = None,
        o_metadata = None, o_notes = None, o_children = None\<rparr>,
      \<lparr>o_uri = Some ''/proj'', o_type = Some DIRECTORY, o_name = None, o_attributes = None,
        o_metadata = None, o_notes = None, o_children = Some [0]\<rparr>]
   = Inr (Some 3,
     [\<lparr>o_uri = Some ''/proj/a.R'', o_type = Some FILE, o_name = None, o_attributes = None,
        o_metadata = None, o_notes = None, o_children = None\<rparr>,
      \<lparr>o_uri = Some ''/proj'', o_type = Some DIRECTORY, o_name = None, o_attributes = None,
        o_metadata = None, o_notes = None, o_children = Some [0]\<rparr>,
      \<lparr>o_uri = Some ''a.R'', o_type = Some FILE, o_name = None, o_attributes = None,
        o_metadata = None, o_notes = None, o_children = None\<rparr>,
      \<lparr>o_uri = Some [], o_type = Some DIRECTORY, o_name = None, o_attributes = None,
        o_metadata = None, o_notes = None, o_children = Some [2]\<rparr>])
   \<and> (\<exists>c h'. recursiveAbsoluteToRelativePath_store 2 ''/home/user'' (Some ''/proj'') (Some 1)
     [\<lparr>o_uri = Some ''/proj/a.R'', o_type = Some FILE, o_name = None, o_attributes = None,
        o_metadata = None, o_notes = None, o_children = None\<rparr>,
      \<lparr>o_uri = Some ''/proj'', o_type = Some DIRECTORY, o_name = None, o_attributes = None,
        o_metadata = None, o_notes = None, o_children = Some [0]\<rparr>] = Inr (Some c, h')
      \<and> take 2 h' =
     [\<lparr>o_uri = Some ''/proj/a.R'', o_type = Some FILE, o_name = None, o_attributes = None,
        o_metadata = None, o_notes = None, o_children = None\<rparr>,
      \<lparr>o_uri = Some ''/proj'', o_type = Some DIRECTORY, o_name = None, o_attributes = None,
        o_metadata = None, o_notes = None, o_children = Some [0]\<rparr>])"
proof -
  let ?H = "[\<lparr>o_uri = Some ''/proj/a.R'', o_type = Some FILE, o_name = None, o_attributes = None,
        o_metadata = None, o_notes = None, o_children = None\<rparr>,
      \<lparr>o_uri = Some ''/proj'', o_type = Some DIRECTORY, o_name = None, o_attributes = None,
        o_metadata = None, o_notes = None, o_children = Some [0]\<rparr>]"
  let ?T = "Asset (Some ''/proj'') (Some DIRECTORY) None None None None
              (Some [Asset (Some ''/proj/a.R'') (Some FILE) None None None None None])"
  have hyp: "represents_above 0 ?H 1 ?T \<and> height ?T \<le> 2"
    by simp
  have run: "recursiveAbsoluteToRelativePath_store 2 ''/home/user'' (Some ''/proj'') (Some 1) ?H
     = Inr (Some 3,
     [\<lparr>o_uri = Some ''/proj/a.R'', o_type = Some FILE, o_name = None, o_attributes = None,
        o_metadata = None, o_notes = None, o_children = None\<rparr>,
      \<lparr>o_uri = Some ''/proj'', o_type = Some DIRECTORY, o_name = None, o_attributes = None,
        o_metadata = None, o_notes = None, o_children = Some [0]\<rparr>,
      \<lparr>o_uri = Some ''a.R'', o_type = Some FILE, o_name = None, o_attributes = None,
        o_metadata = None, o_notes = None, o_children = None\<rparr>,
      \<lparr>o_uri = Some [], o_type = Some DIRECTORY, o_name = None, o_attributes = None,
        o_metadata = None, o_notes = None, o_children = Some [2]\<rparr>])"
    by code_simp
  from recursivePathConversion_leaves_input_unchanged
    [where h = ?H and a = 1 and t = ?T and fuel = 2 and cwd = "''/home/user''" and p = "''/proj''"]
    hyp
  obtain c h' where
    "recursiveAbsoluteToRelativePath_store 2 ''/home/user'' (Some ''/proj'') (Some 1) ?H
     = Inr (Some c, h')"
    and "take (length ?H) h' = ?H"
    by blast
  then have "\<exists>c h'. recursiveAbsoluteToRelativePath_store 2 ''/home/user'' (Some ''/proj'') (Some 1) ?H
     = Inr (Some c, h') \<and> take 2 h' = ?H"
    by (auto simp: numeral_2_eq_2)
  with run show ?thesis by blast
qed

text \<open>
  The copy is what protects the input: the internal worker run on the input's own address
  rewrites the input objects.
\<close>

lemma conversion_without_copy_rewrites_input:
  "recursivePathConversion_at 2 (absoluteToRelativePath ''/home/user'') (Some ''/proj'') 1
     [\<lparr>o_uri = Some ''/proj/a.R'', o_type = Some FILE, o_name = None, o_attributes = None,
        o_metadata = None, o_notes = None, o_children = None\<rparr>,
      \<lparr>o_uri = Some ''/proj'', o_type = Some DIRECTORY, o_name = None, o_attributes = None,
        o_metadata = None, o_notes = None, o_children = Some [0]\<rparr>]
   = Inr [\<lparr>o_uri = Some ''a.R'', o_type = Some FILE, o_name = None, o_attributes = None,
            o_metadata = None, o_notes = None, o_children = None\<rparr>,
          \<lparr>o_uri = Some [], o_type = Some DIRECTORY, o_name = None, o_attributes = None,
            o_metadata = None, o_notes = None, o_children = Some [0]\<rparr>]"
  by code_simp

end
